theory Spec2Isabelle
  imports Complex_Main "HOL-Library.Word"
begin

unbundle bit_operations_syntax

section \<open>Machine types and pointers\<close>

text \<open>
  \<^verbatim>\<open>uint32_t\<close>, \<^verbatim>\<open>int32_t\<close>, \<^verbatim>\<open>uint64_t\<close> and \<^verbatim>\<open>int64_t\<close> are words: arithmetic wraps,
  \<open>unat\<close> reads a word unsigned and \<open>sint\<close> signed, \<open>ucast\<close> zero-extends and \<open>scast\<close>
  sign-extends. A C pointer to an array is a \<open>list option\<close>: \<open>None\<close> is \<^verbatim>\<open>NULL\<close>,
  \<open>Some xs\<close> points at the first element of \<open>xs\<close>, and \<^verbatim>\<open>&p[k]\<close> is \<open>drop k\<close>. Reading
  through \<^verbatim>\<open>NULL\<close> or past the end of the array is undefined behaviour in C, and the
  model gives such a read no particular value: a theorem that says what a call computes
  from the elements takes \<open>Some\<close> pointers and states the bound on the lengths.
  \<^verbatim>\<open>size_t\<close> values are array lengths and are natural numbers; the conversion of a
  count to \<^verbatim>\<open>int\<close> is written out.
\<close>

type_synonym u32 = "32 word"
type_synonym i32 = "32 word"
type_synonym u64 = "64 word"
type_synonym i64 = "64 word"

text \<open>\<^verbatim>\<open>(int)n\<close> for a \<^verbatim>\<open>size_t\<close> \<open>n\<close>: the low 32 bits, read signed.\<close>

definition int_of_size :: "nat \<Rightarrow> int" where
  "int_of_size n = sint (word_of_nat n :: 32 word)"

section \<open>The 8-lane combinatorial driver (inference\_dumb.h)\<close>

definition LOGISTIC_INPUT_SIZE :: nat where
  "LOGISTIC_INPUT_SIZE = 8"

text \<open>
  The accelerator's registers as the driver sees them: the input and the weight bank,
  one 32-bit word per lane, and the number of reads of the \<^verbatim>\<open>RESULT\<close> register made so
  far. The last field is how a theorem counts the invocations of the accelerator: every
  use of the unit ends in exactly one read of its result.
\<close>

record logistic_csr =
  logistic_input :: "u32 list"
  logistic_weight :: "u32 list"
  result_reads :: nat

text \<open>
  The value the combinatorial unit shows in \<^verbatim>\<open>RESULT\<close> is a function of the two banks.
  The hardware description is not part of the C sources, so the driver's functions take
  that function as the parameter \<open>hw\<close>.
\<close>

type_synonym accel = "u32 list \<Rightarrow> u32 list \<Rightarrow> u32"

text \<open>
  \<^verbatim>\<open>logistic_set_inputs_direct\<close> and \<^verbatim>\<open>logistic_set_weights_direct\<close>: the loop
  \<^verbatim>\<open>for (i = 0; i < LOGISTIC_INPUT_SIZE; i++) regs[i] = inputs[i]\<close> stores every lane, so
  the bank afterwards is the first eight elements read through the pointer.
\<close>

definition logistic_set_inputs_direct :: "u32 list \<Rightarrow> logistic_csr \<Rightarrow> logistic_csr" where
  "logistic_set_inputs_direct inputs s =
     s\<lparr>logistic_input := map (\<lambda>i. inputs ! i) [0..<LOGISTIC_INPUT_SIZE]\<rparr>"

definition logistic_set_weights_direct :: "u32 list \<Rightarrow> logistic_csr \<Rightarrow> logistic_csr" where
  "logistic_set_weights_direct weights s =
     s\<lparr>logistic_weight := map (\<lambda>i. weights ! i) [0..<LOGISTIC_INPUT_SIZE]\<rparr>"

text \<open>The bank a direct write leaves behind: the first eight elements behind the pointer.\<close>

definition head8 :: "u32 list \<Rightarrow> u32 list" where
  "head8 ys = map (\<lambda>i. ys ! i) [0..<LOGISTIC_INPUT_SIZE]"

definition logistic_get_result :: "accel \<Rightarrow> logistic_csr \<Rightarrow> u32 \<times> logistic_csr" where
  "logistic_get_result hw s =
     (hw (logistic_input s) (logistic_weight s), s\<lparr>result_reads := Suc (result_reads s)\<rparr>)"

text \<open>\<^verbatim>\<open>if (!inputs || !weights) return 0;\<close> then both banks are written and the result read.\<close>

definition logistic_compute_dot_product ::
  "accel \<Rightarrow> u32 list option \<Rightarrow> u32 list option \<Rightarrow> logistic_csr \<Rightarrow> u32 \<times> logistic_csr" where
  "logistic_compute_dot_product hw inputs weights s =
     (if inputs = None \<or> weights = None then (0, s)
      else logistic_get_result hw
             (logistic_set_weights_direct (the weights)
               (logistic_set_inputs_direct (the inputs) s)))"

text \<open>
  The first loop of \<^verbatim>\<open>logistic_process_chunks\<close>:
  \<^verbatim>\<open>while (remaining_data >= LOGISTIC_INPUT_SIZE) { ... }\<close>, with the loop variables
  \<open>chunks_processed\<close>, \<open>remaining_data\<close> and the cell \<^verbatim>\<open>*accumulator\<close> as arguments; the
  32-bit chunk result is zero-extended when it is added to the 64-bit cell.
\<close>

function logistic_full_chunks ::
  "accel \<Rightarrow> u32 list \<Rightarrow> u32 list \<Rightarrow> nat \<Rightarrow> nat \<Rightarrow> u64 \<Rightarrow> logistic_csr
     \<Rightarrow> nat \<times> nat \<times> u64 \<times> logistic_csr" where
  "logistic_full_chunks hw inputs weights chunks_processed remaining_data acc s =
     (if remaining_data \<ge> LOGISTIC_INPUT_SIZE then
        (case logistic_compute_dot_product hw
                (Some (drop (chunks_processed * LOGISTIC_INPUT_SIZE) inputs))
                (Some (drop (chunks_processed * LOGISTIC_INPUT_SIZE) weights)) s of
           (chunk_result, s') \<Rightarrow>
             logistic_full_chunks hw inputs weights (chunks_processed + 1)
               (remaining_data - LOGISTIC_INPUT_SIZE) (acc + ucast chunk_result) s')
      else (chunks_processed, remaining_data, acc, s))"
  by pat_completeness auto
termination
  by (relation "measure (\<lambda>(hw, inputs, weights, c, r, acc, s). r)")
     (auto simp: LOGISTIC_INPUT_SIZE_def)

text \<open>
  The local array of the remainder branch: \<^verbatim>\<open>uint32_t partial[8] = {0}\<close>, then
  \<^verbatim>\<open>for (i = 0; i < remaining_data; i++) partial[i] = src[base + i]\<close>.
\<close>

definition partial_chunk :: "'a::zero list \<Rightarrow> nat \<Rightarrow> nat \<Rightarrow> 'a list" where
  "partial_chunk src base remaining_data =
     fold (\<lambda>i p. p[i := src ! (base + i)]) [0..<remaining_data]
       (replicate LOGISTIC_INPUT_SIZE 0)"

text \<open>
  \<^verbatim>\<open>logistic_process_chunks\<close> returns the \<^verbatim>\<open>int\<close>, the cell behind \<open>accumulator\<close> and the
  registers.
\<close>

definition logistic_process_chunks ::
  "accel \<Rightarrow> u32 list option \<Rightarrow> u32 list option \<Rightarrow> nat \<Rightarrow> u64 option \<Rightarrow> logistic_csr
     \<Rightarrow> int \<times> u64 option \<times> logistic_csr" where
  "logistic_process_chunks hw inputs weights data_size accumulator s =
     (if inputs = None \<or> weights = None \<or> accumulator = None then (- 1, accumulator, s)
      else
        (case logistic_full_chunks hw (the inputs) (the weights) 0 data_size
                (the accumulator) s of
           (chunks_processed, remaining_data, acc, s1) \<Rightarrow>
             if remaining_data > 0 then
               (case logistic_compute_dot_product hw
                       (Some (partial_chunk (the inputs)
                                (chunks_processed * LOGISTIC_INPUT_SIZE) remaining_data))
                       (Some (partial_chunk (the weights)
                                (chunks_processed * LOGISTIC_INPUT_SIZE) remaining_data)) s1 of
                  (partial_result, s2) \<Rightarrow>
                    (int_of_size (chunks_processed + 1), Some (acc + ucast partial_result), s2))
             else (int_of_size chunks_processed, Some acc, s1)))"

text \<open>
  \<^verbatim>\<open>logistic_predict_large_dataset\<close>: a fresh accumulator, the chunked engine, then
  \<^verbatim>\<open>(int64_t)accumulator + bias\<close> with the 32-bit bias sign-extended.
\<close>

definition logistic_predict_large_dataset ::
  "accel \<Rightarrow> u32 list option \<Rightarrow> u32 list option \<Rightarrow> nat \<Rightarrow> i32 \<Rightarrow> logistic_csr
     \<Rightarrow> i64 \<times> logistic_csr" where
  "logistic_predict_large_dataset hw inputs weights data_size bias s =
     (if inputs = None \<or> weights = None then (0, s)
      else
        (case logistic_process_chunks hw inputs weights data_size (Some 0) s of
           (chunks, accumulator, s1) \<Rightarrow>
             if chunks < 0 then (0, s1) else (the accumulator + scast bias, s1)))"

text \<open>\<^verbatim>\<open>logistic_predict_raw\<close>: one chunk, \<^verbatim>\<open>(int32_t)dot_product + bias\<close>.\<close>

definition logistic_predict_raw ::
  "accel \<Rightarrow> u32 list option \<Rightarrow> u32 list option \<Rightarrow> i32 \<Rightarrow> logistic_csr \<Rightarrow> i32 \<times> logistic_csr" where
  "logistic_predict_raw hw inputs weights bias s =
     (case logistic_compute_dot_product hw inputs weights s of
        (dot_product, s1) \<Rightarrow> (dot_product + bias, s1))"

text \<open>
  \<^verbatim>\<open>logistic_self_test\<close>: the driver's own test of the unit, \<open>0\<close> when it passes and
  \<open>-1\<close> when it fails.
\<close>

definition logistic_self_test :: "accel \<Rightarrow> logistic_csr \<Rightarrow> int \<times> logistic_csr" where
  "logistic_self_test hw s =
     (case logistic_compute_dot_product hw (Some [1, 2, 3, 4, 5, 6, 7, 8])
             (Some [1, 1, 1, 1, 1, 1, 1, 1]) s of
        (result, s1) \<Rightarrow>
          if result \<noteq> 1 + 2 + 3 + 4 + 5 + 6 + 7 + 8 then (- 1, s1)
          else
            (case logistic_compute_dot_product hw (Some (replicate LOGISTIC_INPUT_SIZE 0))
                    (Some [1, 1, 1, 1, 1, 1, 1, 1]) s1 of
               (result', s2) \<Rightarrow> if result' \<noteq> 0 then (- 1, s2) else (0, s2)))"

text \<open>
  The \<^verbatim>\<open>float\<close> entry points. Single-precision arithmetic is not modelled: a \<^verbatim>\<open>float\<close> is
  a value of a type \<open>'f\<close> with a zero (\<^verbatim>\<open>0.0f\<close>), and \<^verbatim>\<open>float_to_fixed\<close>, a float
  multiplication followed by a conversion, is a parameter. The control flow is the
  source's.
\<close>

definition logistic_compute_dot_product_float ::
  "accel \<Rightarrow> ('f \<Rightarrow> u32 \<Rightarrow> u32) \<Rightarrow> 'f list option \<Rightarrow> 'f list option \<Rightarrow> u32 \<Rightarrow> logistic_csr
     \<Rightarrow> u32 \<times> logistic_csr" where
  "logistic_compute_dot_product_float hw float_to_fixed inputs weights scale_factor s =
     (if inputs = None \<or> weights = None \<or> scale_factor = 0 then (0, s)
      else logistic_compute_dot_product hw
             (Some (map (\<lambda>i. float_to_fixed (the inputs ! i) scale_factor)
                      [0..<LOGISTIC_INPUT_SIZE]))
             (Some (map (\<lambda>i. float_to_fixed (the weights ! i) scale_factor)
                      [0..<LOGISTIC_INPUT_SIZE])) s)"

function logistic_full_chunks_float ::
  "accel \<Rightarrow> ('f \<Rightarrow> u32 \<Rightarrow> u32) \<Rightarrow> 'f list \<Rightarrow> 'f list \<Rightarrow> u32 \<Rightarrow> nat \<Rightarrow> nat \<Rightarrow> u64
     \<Rightarrow> logistic_csr \<Rightarrow> nat \<times> nat \<times> u64 \<times> logistic_csr" where
  "logistic_full_chunks_float hw float_to_fixed inputs weights scale_factor chunks_processed
       remaining_data acc s =
     (if remaining_data \<ge> LOGISTIC_INPUT_SIZE then
        (case logistic_compute_dot_product_float hw float_to_fixed
                (Some (drop (chunks_processed * LOGISTIC_INPUT_SIZE) inputs))
                (Some (drop (chunks_processed * LOGISTIC_INPUT_SIZE) weights)) scale_factor s of
           (chunk_result, s') \<Rightarrow>
             logistic_full_chunks_float hw float_to_fixed inputs weights scale_factor
               (chunks_processed + 1) (remaining_data - LOGISTIC_INPUT_SIZE)
               (acc + ucast chunk_result) s')
      else (chunks_processed, remaining_data, acc, s))"
  by pat_completeness auto
termination
  by (relation "measure (\<lambda>(hw, f, inputs, weights, sc, c, r, acc, s). r)")
     (auto simp: LOGISTIC_INPUT_SIZE_def)

definition logistic_process_chunks_float ::
  "accel \<Rightarrow> ('f::zero \<Rightarrow> u32 \<Rightarrow> u32) \<Rightarrow> 'f list option \<Rightarrow> 'f list option \<Rightarrow> nat \<Rightarrow> u32
     \<Rightarrow> u64 option \<Rightarrow> logistic_csr \<Rightarrow> int \<times> u64 option \<times> logistic_csr" where
  "logistic_process_chunks_float hw float_to_fixed inputs weights data_size scale_factor
       accumulator s =
     (if inputs = None \<or> weights = None \<or> accumulator = None \<or> scale_factor = 0
      then (- 1, accumulator, s)
      else
        (case logistic_full_chunks_float hw float_to_fixed (the inputs) (the weights)
                scale_factor 0 data_size (the accumulator) s of
           (chunks_processed, remaining_data, acc, s1) \<Rightarrow>
             if remaining_data > 0 then
               (case logistic_compute_dot_product_float hw float_to_fixed
                       (Some (partial_chunk (the inputs)
                                (chunks_processed * LOGISTIC_INPUT_SIZE) remaining_data))
                       (Some (partial_chunk (the weights)
                                (chunks_processed * LOGISTIC_INPUT_SIZE) remaining_data))
                       scale_factor s1 of
                  (partial_result, s2) \<Rightarrow>
                    (int_of_size (chunks_processed + 1), Some (acc + ucast partial_result), s2))
             else (int_of_size chunks_processed, Some acc, s1)))"

text \<open>
  Modelled from the spec: the accelerator hardware itself (the hardware description
  under \<^verbatim>\<open>hardware_accelerator/\<close>, which the C sources only address through its
  registers). The spec's engine computes the sum of \<open>inputs[i] * weights[i]\<close> per chunk,
  its examples give \<open>36\<close> for the lanes \<open>1..8\<close> against all-ones weights, and the result
  register is 32 bits wide: the unit shows the sum of the eight lane products, modulo
  \<open>2^32\<close>.
\<close>

definition logistic_result_hw :: accel where
  "logistic_result_hw ins ws = (\<Sum>i\<leftarrow>[0..<LOGISTIC_INPUT_SIZE]. ins ! i * ws ! i)"

text \<open>
  The sum of the per-chunk results of the first \<open>n\<close> elements: chunk
  \<open>k\<close> holds the elements \<open>8k .. 8k+7\<close> that lie below \<open>n\<close>, the other lanes are zero, and
  each 32-bit chunk result enters the 64-bit total zero-extended.
\<close>

definition lanes_at :: "u32 list \<Rightarrow> nat \<Rightarrow> nat \<Rightarrow> u32 list" where
  "lanes_at xs n k =
     map (\<lambda>i. if k * LOGISTIC_INPUT_SIZE + i < n then xs ! (k * LOGISTIC_INPUT_SIZE + i) else 0)
       [0..<LOGISTIC_INPUT_SIZE]"

definition chunk_total :: "accel \<Rightarrow> u32 list \<Rightarrow> u32 list \<Rightarrow> nat \<Rightarrow> u64" where
  "chunk_total hw xs ws n =
     (\<Sum>k\<leftarrow>[0..<(n + 7) div LOGISTIC_INPUT_SIZE]. ucast (hw (lanes_at xs n k) (lanes_at ws n k)))"

section \<open>The Q16.16 vector driver (software/drivers/dot\_product\_accel.c)\<close>

text \<open>
  A \<^verbatim>\<open>double\<close> is modelled as a real number. For the values the theorems evaluate
  (dyadic fractions of a few bits), on the range the codec's bound is stated for
  (scaling by a power of two), and for the operands the values of the engine are stated
  for (products of Q16.16 values below \<open>2^26\<close>, totals of at most \<open>2^53\<close>), the binary64
  operations of the source are exact, so the real and the double agree there.

  \<^verbatim>\<open>(int32_t)x\<close> truncates towards zero. Out of the range of \<^verbatim>\<open>int32_t\<close> the conversion
  is undefined in C, and so is a signed addition that overflows; the model keeps the low
  bits there, which the source does not promise. The theorems that state the value of a
  chunk or of the whole engine therefore carry the bounds under which every conversion
  and every signed addition of the source stays in range.
\<close>

definition c_trunc :: "real \<Rightarrow> int" where
  "c_trunc x = (if 0 \<le> x then \<lfloor>x\<rfloor> else \<lceil>x\<rceil>)"

text \<open>\<^verbatim>\<open>(1 << fractional_bits)\<close>, an \<^verbatim>\<open>int\<close>.\<close>

definition one_shl :: "nat \<Rightarrow> int" where
  "one_shl fractional_bits = sint (push_bit fractional_bits (1 :: 32 word))"

definition FIXED_POINT_FRACTIONAL_BITS :: nat where
  "FIXED_POINT_FRACTIONAL_BITS = 16"

definition double_to_fixed :: "real \<Rightarrow> nat \<Rightarrow> i32" where
  "double_to_fixed v fractional_bits =
     word_of_int (c_trunc (v * real_of_int (one_shl fractional_bits)))"

definition fixed_to_double :: "i32 \<Rightarrow> nat \<Rightarrow> real" where
  "fixed_to_double v fractional_bits =
     real_of_int (sint v) / real_of_int (one_shl fractional_bits)"

definition fixed64_to_double :: "i64 \<Rightarrow> nat \<Rightarrow> real" where
  "fixed64_to_double v fractional_bits =
     real_of_int (sint v) / real_of_int (one_shl fractional_bits)"

text \<open>
  The unit's registers. The lane count \<^verbatim>\<open>DOT_PRODUCT_ACCEL_INPUT_SIZE\<close> and the switch
  \<^verbatim>\<open>DOT_PRODUCT_ACCEL_AVAILABLE\<close> come from a header that is not among the sources:
  they are the parameters \<open>L\<close> and \<open>avail\<close>, and the result register's function is \<open>hw\<close>
  as before.
\<close>

record dot_product_csr =
  dot_product_input :: "u32 list"
  dot_product_weight :: "u32 list"
  dot_product_result_reads :: nat

definition dot_product_input_write :: "nat \<Rightarrow> u32 list \<Rightarrow> dot_product_csr \<Rightarrow> dot_product_csr" where
  "dot_product_input_write L vals s = s\<lparr>dot_product_input := map (\<lambda>i. vals ! i) [0..<L]\<rparr>"

definition dot_product_weight_write :: "nat \<Rightarrow> u32 list \<Rightarrow> dot_product_csr \<Rightarrow> dot_product_csr" where
  "dot_product_weight_write L vals s = s\<lparr>dot_product_weight := map (\<lambda>i. vals ! i) [0..<L]\<rparr>"

definition dot_product_accel_init :: "bool \<Rightarrow> nat \<Rightarrow> dot_product_csr \<Rightarrow> dot_product_csr" where
  "dot_product_accel_init avail L s =
     (if avail then
        dot_product_weight_write L (replicate L 0) (dot_product_input_write L (replicate L 0) s)
      else s)"

text \<open>
  \<^verbatim>\<open>dot_product_accel_set_inputs\<close>: a zeroed local array of \<open>L\<close> words, the clamp of
  \<open>count\<close>, the conversion loop over \<open>i < actual_count\<close>, then the write of all \<open>L\<close> lanes.
\<close>

definition dot_product_accel_set_inputs ::
  "bool \<Rightarrow> nat \<Rightarrow> real list option \<Rightarrow> int \<Rightarrow> dot_product_csr \<Rightarrow> dot_product_csr" where
  "dot_product_accel_set_inputs avail L inputs count s =
     (if avail then
        (let actual_count = (if count > int L then int L else count);
             fixed_inputs =
               fold (\<lambda>i f. f[i := double_to_fixed (the inputs ! i) FIXED_POINT_FRACTIONAL_BITS])
                 [0..<nat actual_count] (replicate L 0)
         in dot_product_input_write L fixed_inputs s)
      else s)"

definition dot_product_accel_set_weights ::
  "bool \<Rightarrow> nat \<Rightarrow> real list option \<Rightarrow> int \<Rightarrow> dot_product_csr \<Rightarrow> dot_product_csr" where
  "dot_product_accel_set_weights avail L weights count s =
     (if avail then
        (let actual_count = (if count > int L then int L else count);
             fixed_weights =
               fold (\<lambda>i f. f[i := double_to_fixed (the weights ! i) FIXED_POINT_FRACTIONAL_BITS])
                 [0..<nat actual_count] (replicate L 0)
         in dot_product_weight_write L fixed_weights s)
      else s)"

definition dot_product_accel_get_result ::
  "bool \<Rightarrow> accel \<Rightarrow> dot_product_csr \<Rightarrow> i32 \<times> dot_product_csr" where
  "dot_product_accel_get_result avail hw s =
     (if avail then
        (hw (dot_product_input s) (dot_product_weight s),
         s\<lparr>dot_product_result_reads := Suc (dot_product_result_reads s)\<rparr>)
      else (0, s))"

text \<open>
  \<^verbatim>\<open>dot_product_accel_compute_chunk\<close>: with the unit, write both banks and read the
  result; without it, the loop \<^verbatim>\<open>result += double_to_fixed(inputs[i] * weights[i], 16)\<close>
  over \<open>i < chunk_size\<close>.
\<close>

definition dot_product_accel_compute_chunk ::
  "bool \<Rightarrow> nat \<Rightarrow> accel \<Rightarrow> real list option \<Rightarrow> real list option \<Rightarrow> int \<Rightarrow> dot_product_csr
     \<Rightarrow> i32 \<times> dot_product_csr" where
  "dot_product_accel_compute_chunk avail L hw inputs weights chunk_size s =
     (if avail then
        dot_product_accel_get_result avail hw
          (dot_product_accel_set_weights avail L weights chunk_size
            (dot_product_accel_set_inputs avail L inputs chunk_size s))
      else
        (fold (\<lambda>i result. result +
                 double_to_fixed (the inputs ! i * the weights ! i) FIXED_POINT_FRACTIONAL_BITS)
           [0..<nat chunk_size] 0, s))"

text \<open>
  The first loop of \<^verbatim>\<open>dot_product_accel_dot_product\<close>:
  \<^verbatim>\<open>while (processed + DOT_PRODUCT_ACCEL_INPUT_SIZE <= size)\<close>. The lane count is the
  dimension of initialised arrays in the same file, so a build has \<open>0 < L\<close>; the model's
  loop does not run for \<open>L = 0\<close>. The 32-bit chunk result is sign-extended into the
  \<^verbatim>\<open>int64_t\<close> total. The parameter \<^verbatim>\<open>size\<close> is written \<open>sz\<close>.
\<close>

function dot_product_full_chunks ::
  "bool \<Rightarrow> nat \<Rightarrow> accel \<Rightarrow> nat \<Rightarrow> real list option \<Rightarrow> real list option \<Rightarrow> nat \<Rightarrow> i64
     \<Rightarrow> dot_product_csr \<Rightarrow> nat \<times> i64 \<times> dot_product_csr" where
  "dot_product_full_chunks avail L hw sz inputs weights processed total_result s =
     (if 0 < L \<and> processed + L \<le> sz then
        (case dot_product_accel_compute_chunk avail L hw
                (map_option (drop processed) inputs) (map_option (drop processed) weights)
                (int L) s of
           (chunk_result, s') \<Rightarrow>
             dot_product_full_chunks avail L hw sz inputs weights (processed + L)
               (total_result + scast chunk_result) s')
      else (processed, total_result, s))"
  by pat_completeness auto
termination
  by (relation "measure (\<lambda>(avail, L, hw, sz, inputs, weights, processed, total_result, s).
        sz - processed)") auto

definition dot_product_accel_dot_product ::
  "bool \<Rightarrow> nat \<Rightarrow> accel \<Rightarrow> nat \<Rightarrow> real list option \<Rightarrow> real list option \<Rightarrow> dot_product_csr
     \<Rightarrow> real \<times> dot_product_csr" where
  "dot_product_accel_dot_product avail L hw sz inputs weights s =
     (case dot_product_full_chunks avail L hw sz inputs weights 0 0 s of
        (processed, total_result, s1) \<Rightarrow>
          if processed < sz then
            (case dot_product_accel_compute_chunk avail L hw
                    (map_option (drop processed) inputs) (map_option (drop processed) weights)
                    (int_of_size (sz - processed)) s1 of
               (remainder_result, s2) \<Rightarrow>
                 (fixed64_to_double (total_result + scast remainder_result)
                    FIXED_POINT_FRACTIONAL_BITS, s2))
          else (fixed64_to_double total_result FIXED_POINT_FRACTIONAL_BITS, s1))"

text \<open>
  What a call of \<^verbatim>\<open>dot_product_accel_set_inputs\<close> with the count \<open>c\<close> leaves in a bank
  of \<open>L\<close> lanes, and the value \<^verbatim>\<open>dot_product_accel_compute_chunk\<close> returns for a chunk in
  either build; both are proved of the functions above before they are used.
\<close>

definition fixed_lanes :: "nat \<Rightarrow> real list \<Rightarrow> int \<Rightarrow> u32 list" where
  "fixed_lanes L xs c =
     map (\<lambda>i. if int i < c then double_to_fixed (xs ! i) FIXED_POINT_FRACTIONAL_BITS else 0) [0..<L]"

definition chunk_value :: "bool \<Rightarrow> nat \<Rightarrow> accel \<Rightarrow> real list \<Rightarrow> real list \<Rightarrow> int \<Rightarrow> i32" where
  "chunk_value avail L hw xs ws c =
     (if avail then hw (fixed_lanes L xs c) (fixed_lanes L ws c)
      else fold (\<lambda>i result. result + double_to_fixed (xs ! i * ws ! i) FIXED_POINT_FRACTIONAL_BITS)
             [0..<nat c] 0)"

text \<open>
  The same in closed form, for a vector of \<open>n\<close> elements cut into chunks of \<open>L\<close>: the bank
  that chunk \<open>k\<close> leaves behind, the value of chunk \<open>k\<close> in either build, and the 64-bit total
  of the sign-extended chunk values that \<^verbatim>\<open>dot_product_accel_dot_product\<close> converts back.
\<close>

definition q16_lanes :: "nat \<Rightarrow> real list \<Rightarrow> nat \<Rightarrow> nat \<Rightarrow> u32 list" where
  "q16_lanes L xs n k =
     map (\<lambda>i. if k * L + i < n then double_to_fixed (xs ! (k * L + i)) FIXED_POINT_FRACTIONAL_BITS
              else 0) [0..<L]"

definition chunk_value_at :: "bool \<Rightarrow> nat \<Rightarrow> accel \<Rightarrow> real list \<Rightarrow> real list \<Rightarrow> nat \<Rightarrow> nat \<Rightarrow> i32" where
  "chunk_value_at avail L hw xs ws n k =
     (if avail then hw (q16_lanes L xs n k) (q16_lanes L ws n k)
      else (\<Sum>j\<leftarrow>[k * L..<min (k * L + L) n].
              double_to_fixed (xs ! j * ws ! j) FIXED_POINT_FRACTIONAL_BITS))"

definition dot_product_total :: "bool \<Rightarrow> nat \<Rightarrow> accel \<Rightarrow> real list \<Rightarrow> real list \<Rightarrow> nat \<Rightarrow> i64" where
  "dot_product_total avail L hw xs ws n =
     (\<Sum>k\<leftarrow>[0..<(n + L - 1) div L]. scast (chunk_value_at avail L hw xs ws n k))"

text \<open>
  Modelled from the spec: the Q16.16 unit behind \<^verbatim>\<open>dot_product_accel_result_read\<close>
  (hardware, not among the C sources). The spec describes a fixed-point
  multiply-accumulate that truncates each intermediate product towards zero and never
  rounds: every lane multiplies its two signed Q16.16 words, drops the 16 extra
  fractional bits by truncation, and the lanes are added in 32 bits.
\<close>

definition dot_product_result_hw :: accel where
  "dot_product_result_hw ins ws =
     (\<Sum>i\<leftarrow>[0..<length ins].
        word_of_int (c_trunc (real_of_int (sint (ins ! i) * sint (ws ! i)) / 65536)))"

section \<open>Waiting for completion\<close>

text \<open>
  The status register is volatile: what the \<open>k\<close>-th read returns is given by the
  environment as \<open>status k\<close>, and the state of a wait is the number of reads made so far.
  \<^verbatim>\<open>inference_accel_wait_done\<close> (inference\_accel.h) is the loop
  \<^verbatim>\<open>while (!inference_accel_is_done()) { }\<close>; it returns nothing, and the model returns
  the number of reads made when it returns, or \<open>None\<close> when it never returns.
\<close>

definition INFERENCE_ACCEL_STATUS_DONE :: u32 where
  "INFERENCE_ACCEL_STATUS_DONE = push_bit 1 1"

definition inference_accel_is_done :: "(nat \<Rightarrow> u32) \<Rightarrow> nat \<Rightarrow> bool \<times> nat" where
  "inference_accel_is_done status k = (status k AND INFERENCE_ACCEL_STATUS_DONE \<noteq> 0, Suc k)"

partial_function (option) inference_accel_wait_done :: "(nat \<Rightarrow> u32) \<Rightarrow> nat \<Rightarrow> nat option" where
  "inference_accel_wait_done status k =
     (case inference_accel_is_done status k of
        (d, k') \<Rightarrow> if \<not> d then inference_accel_wait_done status k' else Some k')"

text \<open>
  The 64-lane handshake driver has a wait with a timeout. Its clock is the static
  counter \<^verbatim>\<open>system_time_ms\<close>, which \<^verbatim>\<open>get_time_ms\<close> returns and then increments; the
  timeout is the field \<^verbatim>\<open>timeout_ms\<close> of the driver context.
\<close>

datatype logistic_status_t =
  LOGISTIC_OK | LOGISTIC_ERROR_TIMEOUT | LOGISTIC_ERROR_INVALID_PARAM | LOGISTIC_ERROR_BUSY

record logistic_ctx_t =
  initialized :: bool
  timeout_ms :: u32

record driver_state =
  system_time_ms :: u32
  done_reads :: nat

definition get_time_ms :: "driver_state \<Rightarrow> u32 \<times> driver_state" where
  "get_time_ms st = (system_time_ms st, st\<lparr>system_time_ms := system_time_ms st + 1\<rparr>)"

definition logistic_is_done ::
  "(nat \<Rightarrow> u32) \<Rightarrow> logistic_ctx_t option \<Rightarrow> driver_state \<Rightarrow> bool \<times> driver_state" where
  "logistic_is_done done_reg ctx st =
     (if ctx = None \<or> \<not> initialized (the ctx) then (False, st)
      else (done_reg (done_reads st) AND 1 \<noteq> 0, st\<lparr>done_reads := Suc (done_reads st)\<rparr>))"

text \<open>The loop of \<^verbatim>\<open>logistic_wait_done\<close>; \<open>None\<close> when it never returns.\<close>

partial_function (option) logistic_wait_loop ::
  "(nat \<Rightarrow> u32) \<Rightarrow> logistic_ctx_t option \<Rightarrow> u32 \<Rightarrow> driver_state
     \<Rightarrow> (logistic_status_t \<times> driver_state) option" where
  "logistic_wait_loop done_reg ctx start_time st =
     (case logistic_is_done done_reg ctx st of
        (d, st1) \<Rightarrow>
          if \<not> d then
            (case get_time_ms st1 of
               (now, st2) \<Rightarrow>
                 if now - start_time > timeout_ms (the ctx) then Some (LOGISTIC_ERROR_TIMEOUT, st2)
                 else logistic_wait_loop done_reg ctx start_time st2)
          else Some (LOGISTIC_OK, st1))"

definition logistic_wait_done ::
  "(nat \<Rightarrow> u32) \<Rightarrow> logistic_ctx_t option \<Rightarrow> driver_state
     \<Rightarrow> (logistic_status_t \<times> driver_state) option" where
  "logistic_wait_done done_reg ctx st =
     (if ctx = None \<or> \<not> initialized (the ctx) then Some (LOGISTIC_ERROR_INVALID_PARAM, st)
      else
        (case get_time_ms st of
           (start_time, st1) \<Rightarrow> logistic_wait_loop done_reg ctx start_time st1))"

section \<open>The chunked engine: what the loops compute\<close>

declare logistic_full_chunks.simps [simp del]

lemma compute_Some:
  "logistic_compute_dot_product hw (Some xs) (Some ws) s =
     (hw (head8 xs) (head8 ws),
      s\<lparr>logistic_input := head8 xs, logistic_weight := head8 ws,
        result_reads := Suc (result_reads s)\<rparr>)"
  by (simp add: logistic_compute_dot_product_def logistic_get_result_def
      logistic_set_inputs_direct_def logistic_set_weights_direct_def head8_def)

lemma full_chunks_step:
  "LOGISTIC_INPUT_SIZE \<le> r \<Longrightarrow>
   logistic_full_chunks hw xs ws c r acc s =
     logistic_full_chunks hw xs ws (c + 1) (r - LOGISTIC_INPUT_SIZE)
       (acc + ucast (hw (head8 (drop (c * LOGISTIC_INPUT_SIZE) xs))
                        (head8 (drop (c * LOGISTIC_INPUT_SIZE) ws))))
       (s\<lparr>logistic_input := head8 (drop (c * LOGISTIC_INPUT_SIZE) xs),
          logistic_weight := head8 (drop (c * LOGISTIC_INPUT_SIZE) ws),
          result_reads := Suc (result_reads s)\<rparr>)"
  by (subst logistic_full_chunks.simps) (simp add: compute_Some)

lemma full_chunks_stop:
  "r < LOGISTIC_INPUT_SIZE \<Longrightarrow> logistic_full_chunks hw xs ws c r acc s = (c, r, acc, s)"
  by (subst logistic_full_chunks.simps) simp

lemma full_chunks_parts:
  "logistic_full_chunks hw xs ws c r acc s = (c', r', acc', s') \<Longrightarrow>
   c' = c + r div LOGISTIC_INPUT_SIZE \<and> r' = r mod LOGISTIC_INPUT_SIZE \<and>
   acc' = acc + (\<Sum>k = c..<c + r div LOGISTIC_INPUT_SIZE.
                   ucast (hw (head8 (drop (k * LOGISTIC_INPUT_SIZE) xs))
                             (head8 (drop (k * LOGISTIC_INPUT_SIZE) ws)))) \<and>
   result_reads s' = result_reads s + r div LOGISTIC_INPUT_SIZE"
proof (induction r arbitrary: c acc s rule: less_induct)
  case (less r)
  show ?case
  proof (cases "LOGISTIC_INPUT_SIZE \<le> r")
    case True
    then have lt: "r - LOGISTIC_INPUT_SIZE < r" by (simp add: LOGISTIC_INPUT_SIZE_def)
    have d: "r div LOGISTIC_INPUT_SIZE = Suc ((r - LOGISTIC_INPUT_SIZE) div LOGISTIC_INPUT_SIZE)"
      using True by (simp add: le_div_geq LOGISTIC_INPUT_SIZE_def)
    have m: "r mod LOGISTIC_INPUT_SIZE = (r - LOGISTIC_INPUT_SIZE) mod LOGISTIC_INPUT_SIZE"
      using True by (simp add: le_mod_geq)
    from less.prems True
    have "logistic_full_chunks hw xs ws (c + 1) (r - LOGISTIC_INPUT_SIZE)
       (acc + ucast (hw (head8 (drop (c * LOGISTIC_INPUT_SIZE) xs))
                        (head8 (drop (c * LOGISTIC_INPUT_SIZE) ws))))
       (s\<lparr>logistic_input := head8 (drop (c * LOGISTIC_INPUT_SIZE) xs),
          logistic_weight := head8 (drop (c * LOGISTIC_INPUT_SIZE) ws),
          result_reads := Suc (result_reads s)\<rparr>) = (c', r', acc', s')"
      by (simp add: full_chunks_step)
    from less.IH [OF lt this]
    have ih: "c' = c + 1 + (r - LOGISTIC_INPUT_SIZE) div LOGISTIC_INPUT_SIZE"
      "r' = (r - LOGISTIC_INPUT_SIZE) mod LOGISTIC_INPUT_SIZE"
      "acc' = acc + ucast (hw (head8 (drop (c * LOGISTIC_INPUT_SIZE) xs))
                        (head8 (drop (c * LOGISTIC_INPUT_SIZE) ws)))
           + (\<Sum>k = c + 1..<c + 1 + (r - LOGISTIC_INPUT_SIZE) div LOGISTIC_INPUT_SIZE.
                   ucast (hw (head8 (drop (k * LOGISTIC_INPUT_SIZE) xs))
                             (head8 (drop (k * LOGISTIC_INPUT_SIZE) ws))))"
      "result_reads s' = Suc (result_reads s) + (r - LOGISTIC_INPUT_SIZE) div LOGISTIC_INPUT_SIZE"
      by simp_all
    have split: "(\<Sum>k = c..<c + r div LOGISTIC_INPUT_SIZE.
                   ucast (hw (head8 (drop (k * LOGISTIC_INPUT_SIZE) xs))
                             (head8 (drop (k * LOGISTIC_INPUT_SIZE) ws))) :: u64)
        = ucast (hw (head8 (drop (c * LOGISTIC_INPUT_SIZE) xs))
                        (head8 (drop (c * LOGISTIC_INPUT_SIZE) ws)))
           + (\<Sum>k = c + 1..<c + 1 + (r - LOGISTIC_INPUT_SIZE) div LOGISTIC_INPUT_SIZE.
                   ucast (hw (head8 (drop (k * LOGISTIC_INPUT_SIZE) xs))
                             (head8 (drop (k * LOGISTIC_INPUT_SIZE) ws))))"
      unfolding d by (subst sum.atLeast_Suc_lessThan) simp_all
    have "c' = c + r div LOGISTIC_INPUT_SIZE" using ih(1) d by linarith
    moreover have "r' = r mod LOGISTIC_INPUT_SIZE" by (simp only: ih(2) m)
    moreover have "acc' = acc + (\<Sum>k = c..<c + r div LOGISTIC_INPUT_SIZE.
                   ucast (hw (head8 (drop (k * LOGISTIC_INPUT_SIZE) xs))
                             (head8 (drop (k * LOGISTIC_INPUT_SIZE) ws))))"
      by (simp only: split ih(3) add.assoc)
    moreover have "result_reads s' = result_reads s + r div LOGISTIC_INPUT_SIZE"
      using ih(4) d by linarith
    ultimately show ?thesis by blast
  next
    case False
    with less.prems show ?thesis by (simp add: full_chunks_stop)
  qed
qed

lemma fold_update_upt:
  "r \<le> length ys \<Longrightarrow>
   fold (\<lambda>i p. p[i := f i]) [0..<r] ys = map (\<lambda>i. if i < r then f i else ys ! i) [0..<length ys]"
proof (induction r)
  case 0
  show ?case by (simp add: map_nth)
next
  case (Suc r)
  then have "fold (\<lambda>i p. p[i := f i]) [0..<Suc r] ys
      = (map (\<lambda>i. if i < r then f i else ys ! i) [0..<length ys])[r := f r]"
    by simp
  also have "\<dots> = map (\<lambda>i. if i < Suc r then f i else ys ! i) [0..<length ys]"
    using Suc.prems by (intro nth_equalityI) (auto simp: nth_list_update less_Suc_eq)
  finally show ?case .
qed

lemma partial_chunk_lanes:
  "r \<le> LOGISTIC_INPUT_SIZE \<Longrightarrow>
   partial_chunk xs (c * LOGISTIC_INPUT_SIZE) r = lanes_at xs (c * LOGISTIC_INPUT_SIZE + r) c"
  by (simp add: partial_chunk_def fold_update_upt lanes_at_def)

lemma head8_idem: "length ys = LOGISTIC_INPUT_SIZE \<Longrightarrow> head8 ys = ys"
  by (intro nth_equalityI) (simp_all add: head8_def)

lemma length_lanes_at: "length (lanes_at xs n k) = LOGISTIC_INPUT_SIZE"
  by (simp add: lanes_at_def)

lemma head8_drop_lanes:
  "k * LOGISTIC_INPUT_SIZE + LOGISTIC_INPUT_SIZE \<le> n \<Longrightarrow> n \<le> length xs \<Longrightarrow>
   head8 (drop (k * LOGISTIC_INPUT_SIZE) xs) = lanes_at xs n k"
  by (intro nth_equalityI) (simp_all add: head8_def lanes_at_def)

lemma lanes_at_full:
  "k * LOGISTIC_INPUT_SIZE + LOGISTIC_INPUT_SIZE \<le> n \<Longrightarrow> n \<le> m \<Longrightarrow> lanes_at xs n k = lanes_at xs m k"
  by (intro nth_equalityI) (simp_all add: lanes_at_def)

lemma full_sum_lanes:
  assumes "n \<le> length xs" "n \<le> length ws"
  shows "(\<Sum>k = 0..<n div LOGISTIC_INPUT_SIZE.
            ucast (hw (head8 (drop (k * LOGISTIC_INPUT_SIZE) xs))
                      (head8 (drop (k * LOGISTIC_INPUT_SIZE) ws))) :: u64)
       = (\<Sum>k<n div LOGISTIC_INPUT_SIZE. ucast (hw (lanes_at xs n k) (lanes_at ws n k)))"
  unfolding atLeast0LessThan
proof (rule sum.cong [OF refl])
  fix k assume "k \<in> {..<n div LOGISTIC_INPUT_SIZE}"
  then have "Suc k * LOGISTIC_INPUT_SIZE \<le> (n div LOGISTIC_INPUT_SIZE) * LOGISTIC_INPUT_SIZE"
    by (intro mult_le_mono1) simp
  also have "\<dots> \<le> n" by simp
  finally have full: "k * LOGISTIC_INPUT_SIZE + LOGISTIC_INPUT_SIZE \<le> n" by simp
  show "(ucast (hw (head8 (drop (k * LOGISTIC_INPUT_SIZE) xs))
                 (head8 (drop (k * LOGISTIC_INPUT_SIZE) ws))) :: u64)
        = ucast (hw (lanes_at xs n k) (lanes_at ws n k))"
    by (simp only: head8_drop_lanes [OF full assms(1)] head8_drop_lanes [OF full assms(2)])
qed

lemma ceil_div8:
  "(n + 7) div LOGISTIC_INPUT_SIZE =
     (if n mod LOGISTIC_INPUT_SIZE = 0 then n div LOGISTIC_INPUT_SIZE
      else Suc (n div LOGISTIC_INPUT_SIZE))"
  unfolding LOGISTIC_INPUT_SIZE_def by presburger

lemma process_chunks_Some:
  assumes "n \<le> length xs" "n \<le> length ws"
  shows "\<exists>s'. logistic_process_chunks hw (Some xs) (Some ws) n (Some acc) s =
           (int_of_size ((n + 7) div LOGISTIC_INPUT_SIZE),
            Some (acc + (\<Sum>k<(n + 7) div LOGISTIC_INPUT_SIZE.
                           ucast (hw (lanes_at xs n k) (lanes_at ws n k)))), s') \<and>
         result_reads s' = result_reads s + (n + 7) div LOGISTIC_INPUT_SIZE"
proof -
  obtain c' r' acc' s1 where
    fc: "logistic_full_chunks hw xs ws 0 n acc s = (c', r', acc', s1)"
    by (metis prod_cases4)
  from full_chunks_parts [OF fc] full_sum_lanes [OF assms, of hw]
  have c': "c' = n div LOGISTIC_INPUT_SIZE" and r': "r' = n mod LOGISTIC_INPUT_SIZE"
    and acc': "acc' = acc + (\<Sum>k<n div LOGISTIC_INPUT_SIZE.
                              ucast (hw (lanes_at xs n k) (lanes_at ws n k)))"
    and s1: "result_reads s1 = result_reads s + n div LOGISTIC_INPUT_SIZE"
    by simp_all
  show ?thesis
  proof (cases "n mod LOGISTIC_INPUT_SIZE = 0")
    case True
    then show ?thesis
      by (simp add: logistic_process_chunks_def fc c' r' acc' s1 ceil_div8)
  next
    case False
    have n: "n div LOGISTIC_INPUT_SIZE * LOGISTIC_INPUT_SIZE + n mod LOGISTIC_INPUT_SIZE = n"
      by simp
    have le: "n mod LOGISTIC_INPUT_SIZE \<le> LOGISTIC_INPUT_SIZE"
      by (simp add: LOGISTIC_INPUT_SIZE_def)
    have px: "partial_chunk xs (n div LOGISTIC_INPUT_SIZE * LOGISTIC_INPUT_SIZE)
                (n mod LOGISTIC_INPUT_SIZE) = lanes_at xs n (n div LOGISTIC_INPUT_SIZE)"
      and pw: "partial_chunk ws (n div LOGISTIC_INPUT_SIZE * LOGISTIC_INPUT_SIZE)
                (n mod LOGISTIC_INPUT_SIZE) = lanes_at ws n (n div LOGISTIC_INPUT_SIZE)"
      by (simp_all only: partial_chunk_lanes [OF le] n)
    from False show ?thesis
      by (simp add: logistic_process_chunks_def fc c' r' acc' s1 ceil_div8 px pw
          compute_Some head8_idem length_lanes_at add.assoc)
  qed
qed

lemma int_of_size_small: "n < 2 ^ 31 \<Longrightarrow> int_of_size n = int n"
  unfolding int_of_size_def
  by (simp add: signed_of_nat signed_take_bit_int_eq_self)

lemma chunk_total_sum:
  "chunk_total hw xs ws n =
     (\<Sum>k<(n + 7) div LOGISTIC_INPUT_SIZE. ucast (hw (lanes_at xs n k) (lanes_at ws n k)))"
  by (simp add: chunk_total_def interv_sum_list_conv_sum_set_nat atLeast0LessThan)

lemma process_chunks_count:
  "fst (logistic_process_chunks hw (Some xs) (Some ws) n (Some acc) s)
     = int_of_size ((n + 7) div LOGISTIC_INPUT_SIZE) \<and>
   result_reads (snd (snd (logistic_process_chunks hw (Some xs) (Some ws) n (Some acc) s)))
     = result_reads s + (n + 7) div LOGISTIC_INPUT_SIZE \<and>
   fst (snd (logistic_process_chunks hw (Some xs) (Some ws) n (Some acc) s)) \<noteq> None"
proof -
  obtain c' r' acc' s1 where
    fc: "logistic_full_chunks hw xs ws 0 n acc s = (c', r', acc', s1)"
    by (metis prod_cases4)
  from full_chunks_parts [OF fc]
  have c': "c' = n div LOGISTIC_INPUT_SIZE" and r': "r' = n mod LOGISTIC_INPUT_SIZE"
    and s1: "result_reads s1 = result_reads s + n div LOGISTIC_INPUT_SIZE"
    by simp_all
  show ?thesis
    by (simp add: logistic_process_chunks_def fc c' r' s1 ceil_div8 compute_Some)
qed

lemma int_of_size_nonneg: "n < 2 ^ 31 \<Longrightarrow> 0 \<le> int_of_size n"
  by (simp add: int_of_size_small)

lemma chunks_small: "n < 2 ^ 32 \<Longrightarrow> (n + 7) div LOGISTIC_INPUT_SIZE < 2 ^ 31"
  unfolding LOGISTIC_INPUT_SIZE_def by simp

lemma process_chunks_acc:
  assumes "n \<le> length xs" "n \<le> length ws"
  shows "fst (snd (logistic_process_chunks hw (Some xs) (Some ws) n (Some acc) s))
           = Some (acc + chunk_total hw xs ws n)"
  using process_chunks_Some [OF assms, of hw acc s] by (auto simp: chunk_total_sum)

declare logistic_full_chunks_float.simps [simp del]
declare dot_product_full_chunks.simps [simp del]

lemma full_chunks_float_count:
  "fst (logistic_full_chunks_float hw f xs ws sc c r acc s) = c + r div LOGISTIC_INPUT_SIZE \<and>
   fst (snd (logistic_full_chunks_float hw f xs ws sc c r acc s)) = r mod LOGISTIC_INPUT_SIZE"
proof (induction r arbitrary: c acc s rule: less_induct)
  case (less r)
  show ?case
  proof (cases "LOGISTIC_INPUT_SIZE \<le> r")
    case True
    then have lt: "r - LOGISTIC_INPUT_SIZE < r" by (simp add: LOGISTIC_INPUT_SIZE_def)
    have d: "r div LOGISTIC_INPUT_SIZE = Suc ((r - LOGISTIC_INPUT_SIZE) div LOGISTIC_INPUT_SIZE)"
      using True by (simp add: le_div_geq LOGISTIC_INPUT_SIZE_def)
    have m: "r mod LOGISTIC_INPUT_SIZE = (r - LOGISTIC_INPUT_SIZE) mod LOGISTIC_INPUT_SIZE"
      using True by (simp add: le_mod_geq)
    show ?thesis
      using True
      by (subst (1 2) logistic_full_chunks_float.simps)
         (simp add: case_prod_beta less.IH [OF lt] d m del: One_nat_def)
  next
    case False
    then show ?thesis by (subst (1 2) logistic_full_chunks_float.simps) simp
  qed
qed

lemma process_chunks_float_count:
  "scale_factor \<noteq> 0 \<Longrightarrow>
   fst (logistic_process_chunks_float hw f (Some xs) (Some ws) n scale_factor (Some acc) s)
     = int_of_size ((n + 7) div LOGISTIC_INPUT_SIZE)"
  using full_chunks_float_count [of hw f xs ws scale_factor 0 n acc s]
  by (simp add: logistic_process_chunks_float_def case_prod_beta ceil_div8)

section \<open>The Q16.16 driver: what the loops compute\<close>

lemma fill_lanes:
  "map (\<lambda>i. (fold (\<lambda>i f. f[i := g i]) [0..<nat (if c > int L then int L else c)]
               (replicate L (0 :: u32))) ! i) [0..<L]
     = map (\<lambda>i. if int i < c then g i else 0) [0..<L]"
proof -
  have le: "nat (if c > int L then int L else c) \<le> length (replicate L (0 :: u32))" by auto
  show ?thesis
    unfolding fold_update_upt [OF le]
    by (rule nth_equalityI) auto
qed

lemma set_inputs_bank:
  "dot_product_accel_set_inputs True L (Some xs) c s = s\<lparr>dot_product_input := fixed_lanes L xs c\<rparr>"
  unfolding dot_product_accel_set_inputs_def dot_product_input_write_def Let_def fixed_lanes_def
  by (simp only: if_True option.sel fill_lanes)

lemma set_weights_bank:
  "dot_product_accel_set_weights True L (Some ws) c s = s\<lparr>dot_product_weight := fixed_lanes L ws c\<rparr>"
  unfolding dot_product_accel_set_weights_def dot_product_weight_write_def Let_def fixed_lanes_def
  by (simp only: if_True option.sel fill_lanes)

lemma compute_chunk_hw:
  "dot_product_accel_compute_chunk True L hw (Some xs) (Some ws) c s =
     (hw (fixed_lanes L xs c) (fixed_lanes L ws c),
      s\<lparr>dot_product_input := fixed_lanes L xs c, dot_product_weight := fixed_lanes L ws c,
        dot_product_result_reads := Suc (dot_product_result_reads s)\<rparr>)"
  by (simp add: dot_product_accel_compute_chunk_def dot_product_accel_get_result_def
      set_inputs_bank set_weights_bank)

lemma compute_chunk_sw:
  "dot_product_accel_compute_chunk False L hw (Some xs) (Some ws) c s =
     (fold (\<lambda>i result. result + double_to_fixed (xs ! i * ws ! i) FIXED_POINT_FRACTIONAL_BITS)
        [0..<nat c] 0, s)"
  by (simp add: dot_product_accel_compute_chunk_def)

lemma compute_chunk_value:
  "fst (dot_product_accel_compute_chunk avail L hw (Some xs) (Some ws) c s)
     = chunk_value avail L hw xs ws c \<and>
   dot_product_result_reads (snd (dot_product_accel_compute_chunk avail L hw (Some xs) (Some ws) c s))
     = dot_product_result_reads s + (if avail then 1 else 0)"
  by (cases avail) (simp_all add: compute_chunk_hw compute_chunk_sw chunk_value_def)

lemma dp_full_chunks_step:
  "0 < L \<Longrightarrow> p + L \<le> sz \<Longrightarrow>
   dot_product_full_chunks avail L hw sz (Some xs) (Some ws) p tot s =
     dot_product_full_chunks avail L hw sz (Some xs) (Some ws) (p + L)
       (tot + scast (chunk_value avail L hw (drop p xs) (drop p ws) (int L)))
       (snd (dot_product_accel_compute_chunk avail L hw (Some (drop p xs)) (Some (drop p ws))
               (int L) s))"
  by (subst dot_product_full_chunks.simps)
     (simp add: case_prod_beta compute_chunk_value)

lemma dp_full_chunks_stop:
  "\<not> (0 < L \<and> p + L \<le> sz) \<Longrightarrow>
   dot_product_full_chunks avail L hw sz xs ws p tot s = (p, tot, s)"
  by (subst dot_product_full_chunks.simps) auto

lemma dp_full_chunks_parts:
  assumes "0 < L"
  shows "dot_product_full_chunks avail L hw sz (Some xs) (Some ws) p tot s = (p', tot', s') \<Longrightarrow>
   p' = p + (sz - p) div L * L \<and>
   tot' = tot + (\<Sum>k<(sz - p) div L.
                       scast (chunk_value avail L hw (drop (p + k * L) xs) (drop (p + k * L) ws)
                                (int L))) \<and>
   dot_product_result_reads s'
     = dot_product_result_reads s + (if avail then (sz - p) div L else 0)"
proof (induction "sz - p" arbitrary: p tot s rule: less_induct)
  case less
  show ?case
  proof (cases "p + L \<le> sz")
    case True
    with assms have lt: "sz - (p + L) < sz - p" by simp
    have d: "(sz - p) div L = Suc ((sz - (p + L)) div L)"
      using True assms by (simp add: le_div_geq)
    let ?s1 = "snd (dot_product_accel_compute_chunk avail L hw (Some (drop p xs))
                     (Some (drop p ws)) (int L) s)"
    let ?v = "chunk_value avail L hw (drop p xs) (drop p ws) (int L)"
    from less.prems True assms
    have "dot_product_full_chunks avail L hw sz (Some xs) (Some ws) (p + L)
            (tot + scast ?v) ?s1 = (p', tot', s')"
      by (simp add: dp_full_chunks_step)
    from less.hyps [OF lt this]
    have ih: "p' = p + L + (sz - (p + L)) div L * L"
      "tot' = tot + scast ?v +
         (\<Sum>k<(sz - (p + L)) div L.
             scast (chunk_value avail L hw (drop (p + L + k * L) xs) (drop (p + L + k * L) ws)
                      (int L)))"
      "dot_product_result_reads s'
         = dot_product_result_reads ?s1 + (if avail then (sz - (p + L)) div L else 0)"
      by simp_all
    have split: "(\<Sum>k<Suc ((sz - (p + L)) div L).
             scast (chunk_value avail L hw (drop (p + k * L) xs) (drop (p + k * L) ws) (int L)) :: i64)
       = scast ?v + (\<Sum>k<(sz - (p + L)) div L.
             scast (chunk_value avail L hw (drop (p + L + k * L) xs) (drop (p + L + k * L) ws)
                      (int L)))"
      by (subst sum.lessThan_Suc_shift) (simp add: add.assoc add.commute [of L])
    have "p' = p + (sz - p) div L * L" unfolding ih(1) d by simp
    moreover have "tot' = tot + (\<Sum>k<(sz - p) div L.
                       scast (chunk_value avail L hw (drop (p + k * L) xs) (drop (p + k * L) ws)
                                (int L)))"
      unfolding d split ih(2) by (simp only: add.assoc)
    moreover have "dot_product_result_reads s'
        = dot_product_result_reads s + (if avail then (sz - p) div L else 0)"
      unfolding ih(3) d using compute_chunk_value [of avail L hw "drop p xs" "drop p ws" "int L" s]
      by simp
    ultimately show ?thesis by blast
  next
    case False
    then have "(sz - p) div L = 0" using assms by (simp add: div_eq_0_iff)
    with less.prems False show ?thesis by (simp add: dp_full_chunks_stop)
  qed
qed

lemma ceil_div_cases:
  assumes "0 < (L :: nat)"
  shows "(sz + L - 1) div L = (if sz mod L = 0 then sz div L else Suc (sz div L))"
proof -
  define q r where "q = sz div L" and "r = sz mod L"
  have sz: "sz = q * L + r" and r: "r < L"
    using assms by (simp_all add: q_def r_def)
  have aux: "(k * L + m) div L = k" if "m < L" for k m
  proof -
    have "(k * L + m) div L = k + m div L" using assms by (intro div_mult_self3) simp
    then show ?thesis using that by simp
  qed
  show ?thesis
  proof (cases "r = 0")
    case True
    have "sz + L - 1 = q * L + (L - 1)" using sz True assms by simp
    moreover have "(q * L + (L - 1)) div L = q" using assms by (intro aux) simp
    ultimately show ?thesis using True by (simp add: q_def r_def)
  next
    case False
    have "sz + L - 1 = Suc q * L + (r - 1)" using sz False by simp
    moreover have "(Suc q * L + (r - 1)) div L = Suc q" using r by (intro aux) simp
    ultimately show ?thesis using False by (simp add: q_def r_def)
  qed
qed

lemma dp_reads:
  assumes "0 < L"
  shows "dot_product_result_reads
           (snd (dot_product_accel_dot_product avail L hw sz (Some xs) (Some ws) s))
         = dot_product_result_reads s + (if avail then (sz + L - 1) div L else 0)"
proof -
  obtain p' tot' s1 where
    fc: "dot_product_full_chunks avail L hw sz (Some xs) (Some ws) 0 0 s = (p', tot', s1)"
    by (metis prod_cases3)
  from dp_full_chunks_parts [OF assms fc]
  have p': "p' = sz div L * L"
    and s1: "dot_product_result_reads s1
               = dot_product_result_reads s + (if avail then sz div L else 0)"
    by simp_all
  have lt: "p' < sz \<longleftrightarrow> sz mod L \<noteq> 0"
    unfolding p' using div_mult_mod_eq [of sz L] by arith
  have c: "(sz + L - 1) div L = (if sz mod L = 0 then sz div L else Suc (sz div L))"
    using assms by (rule ceil_div_cases)
  show ?thesis
  proof (cases "p' < sz")
    case True
    then have m: "sz mod L \<noteq> 0" using lt by simp
    have "snd (dot_product_accel_dot_product avail L hw sz (Some xs) (Some ws) s)
        = snd (dot_product_accel_compute_chunk avail L hw (Some (drop p' xs)) (Some (drop p' ws))
                 (int_of_size (sz - p')) s1)"
      using True by (simp add: dot_product_accel_dot_product_def fc case_prod_beta)
    then have "dot_product_result_reads
           (snd (dot_product_accel_dot_product avail L hw sz (Some xs) (Some ws) s))
        = dot_product_result_reads s1 + (if avail then 1 else 0)"
      using compute_chunk_value [of avail L hw "drop p' xs" "drop p' ws" "int_of_size (sz - p')" s1]
      by simp
    then show ?thesis unfolding c s1 using m by simp
  next
    case False
    then have m: "sz mod L = 0" using lt by simp
    have "snd (dot_product_accel_dot_product avail L hw sz (Some xs) (Some ws) s) = s1"
      using False by (simp add: dot_product_accel_dot_product_def fc)
    then show ?thesis unfolding c using m s1 by simp
  qed
qed

lemma ceil8: "nat \<lceil>real n / 8\<rceil> = (n + 7) div 8"
proof -
  have "\<lceil>real n / 8\<rceil> = \<lceil>of_int (int n) / (of_int 8 :: real)\<rceil>" by simp
  also have "\<dots> = - (- int n div 8)" by (rule ceiling_divide_eq_div)
  also have "\<dots> = int ((n + 7) div 8)" by (simp add: zdiv_int)
  finally show ?thesis by simp
qed

lemma ceil64: "nat \<lceil>real n / 64\<rceil> = (n + 63) div 64"
proof -
  have "\<lceil>real n / 64\<rceil> = \<lceil>of_int (int n) / (of_int 64 :: real)\<rceil>" by simp
  also have "\<dots> = - (- int n div 64)" by (rule ceiling_divide_eq_div)
  also have "\<dots> = int ((n + 63) div 64)" by (simp add: zdiv_int)
  finally show ?thesis by simp
qed

section \<open>The codec\<close>

lemma one_shl_pow: "F \<le> 30 \<Longrightarrow> one_shl F = 2 ^ F"
proof -
  assume F: "F \<le> 30"
  have lt: "(2 :: int) ^ F < 2 ^ (LENGTH(32) - Suc 0)"
    using F by (intro power_strict_increasing) simp_all
  have ge: "- (2 ^ (LENGTH(32) - Suc 0)) \<le> (2 :: int) ^ F"
    by (rule order_trans [of _ 0]) simp_all
  have "push_bit F (1 :: 32 word) = word_of_int (2 ^ F)"
    by (simp add: push_bit_eq_mult)
  then have "one_shl F = sint (word_of_int (2 ^ F) :: 32 word)"
    by (simp only: one_shl_def)
  also have "\<dots> = signed_take_bit (LENGTH(32) - Suc 0) (2 ^ F)"
    by (simp only: signed_of_int) simp
  also have "\<dots> = 2 ^ F"
    by (rule signed_take_bit_int_eq_self [OF ge lt])
  finally show ?thesis .
qed

lemma c_trunc_close: "\<bar>real_of_int (c_trunc y) - y\<bar> < 1"
  unfolding c_trunc_def by (auto; linarith)

lemma sint_word_of_int_range:
  "- (2 ^ 31) \<le> k \<Longrightarrow> k < 2 ^ 31 \<Longrightarrow> sint (word_of_int k :: 32 word) = k"
  by (simp add: signed_of_int signed_take_bit_int_eq_self)

lemma c_trunc_range:
  assumes "\<bar>y\<bar> < 2 ^ 31"
  shows "- (2 ^ 31) \<le> c_trunc y \<and> c_trunc y < 2 ^ 31"
proof -
  have y: "- (2 ^ 31) < y" "y < 2 ^ 31" using assms by (simp_all add: abs_less_iff)
  have "\<lfloor>y\<rfloor> < 2 ^ 31" using y(2) by (simp add: floor_less_iff)
  moreover have "- (2 ^ 31) \<le> \<lceil>y\<rceil>"
    using y(1) by (simp add: le_ceiling_iff)
  moreover have "0 \<le> y \<Longrightarrow> 0 \<le> \<lfloor>y\<rfloor>" by simp
  moreover have "y < 0 \<Longrightarrow> \<lceil>y\<rceil> \<le> 0" by (simp add: ceiling_le_iff)
  ultimately show ?thesis unfolding c_trunc_def by auto
qed

section \<open>Waiting: what the loops do\<close>

lemma wait_done_never:
  assumes "\<And>j. status j AND INFERENCE_ACCEL_STATUS_DONE = 0"
  shows "inference_accel_wait_done status k = None"
proof (rule ccontr)
  assume "inference_accel_wait_done status k \<noteq> None"
  then obtain y where y: "inference_accel_wait_done status k = Some y" by auto
  have "\<not> (\<forall>j. st j AND INFERENCE_ACCEL_STATUS_DONE = 0)"
    if ret: "inference_accel_wait_done st k = Some y" for st k y
  proof (rule inference_accel_wait_done.raw_induct
      [where P = "\<lambda>st k y. \<not> (\<forall>j. st j AND INFERENCE_ACCEL_STATUS_DONE = 0)", OF _ ret])
    fix wd :: "(nat \<Rightarrow> u32) \<Rightarrow> nat \<Rightarrow> nat option" and st k y
    assume ih: "\<And>st' k' y'. wd st' k' = Some y' \<Longrightarrow>
                  \<not> (\<forall>j. st' j AND INFERENCE_ACCEL_STATUS_DONE = 0)"
      and body: "(case inference_accel_is_done st k of
                    (d, k') \<Rightarrow> if \<not> d then wd st k' else Some k') = Some y"
    show "\<not> (\<forall>j. st j AND INFERENCE_ACCEL_STATUS_DONE = 0)"
    proof
      assume never: "\<forall>j. st j AND INFERENCE_ACCEL_STATUS_DONE = 0"
      with body have "wd st (Suc k) = Some y"
        by (simp add: inference_accel_is_done_def)
      from ih [OF this] never show False by blast
    qed
  qed
  from this [OF y] assms show False by blast
qed

lemma wait_done_returns:
  assumes "status (k + n) AND INFERENCE_ACCEL_STATUS_DONE \<noteq> 0"
    and "\<And>j. j < n \<Longrightarrow> status (k + j) AND INFERENCE_ACCEL_STATUS_DONE = 0"
  shows "inference_accel_wait_done status k = Some (Suc (k + n))"
  using assms
proof (induction n arbitrary: k)
  case 0
  then show ?case
    by (subst inference_accel_wait_done.simps) (simp add: inference_accel_is_done_def)
next
  case (Suc n)
  have "status k AND INFERENCE_ACCEL_STATUS_DONE = 0" using Suc.prems(2) [of 0] by simp
  then have "inference_accel_wait_done status k = inference_accel_wait_done status (Suc k)"
    by (subst inference_accel_wait_done.simps) (simp add: inference_accel_is_done_def)
  also have "\<dots> = Some (Suc (Suc k + n))"
  proof (rule Suc.IH)
    show "status (Suc k + n) AND INFERENCE_ACCEL_STATUS_DONE \<noteq> 0" using Suc.prems(1) by simp
    show "status (Suc k + j) AND INFERENCE_ACCEL_STATUS_DONE = 0" if "j < n" for j
      using Suc.prems(2) [of "Suc j"] that by simp
  qed
  finally show ?case by simp
qed

lemma wait_loop_not_done:
  assumes "initialized c" and "done_reg (done_reads st) AND 1 = 0"
  shows "logistic_wait_loop done_reg (Some c) start st =
     (if system_time_ms st - start > timeout_ms c
      then Some (LOGISTIC_ERROR_TIMEOUT,
                 st\<lparr>done_reads := Suc (done_reads st), system_time_ms := system_time_ms st + 1\<rparr>)
      else logistic_wait_loop done_reg (Some c) start
             (st\<lparr>done_reads := Suc (done_reads st), system_time_ms := system_time_ms st + 1\<rparr>))"
  using assms
  by (subst logistic_wait_loop.simps)
     (auto simp: logistic_is_done_def get_time_ms_def)

lemma wait_loop_is_done:
  assumes "initialized c" and "done_reg (done_reads st) AND 1 \<noteq> 0"
  shows "logistic_wait_loop done_reg (Some c) start st =
     Some (LOGISTIC_OK, st\<lparr>done_reads := Suc (done_reads st)\<rparr>)"
  using assms
  by (subst logistic_wait_loop.simps) (simp add: logistic_is_done_def)

lemma wait_loop_timeout:
  assumes "initialized c"
    and "unat (timeout_ms c) < 2 ^ 32 - 1"
    and "\<And>j. j \<le> d \<Longrightarrow> done_reg (done_reads st + j) AND 1 = 0"
    and "unat (system_time_ms st - start) + d = unat (timeout_ms c) + 1"
  shows "logistic_wait_loop done_reg (Some c) start st =
     Some (LOGISTIC_ERROR_TIMEOUT,
           st\<lparr>system_time_ms := system_time_ms st + of_nat d + 1,
              done_reads := done_reads st + d + 1\<rparr>)"
  using assms(3,4)
proof (induction d arbitrary: st)
  case 0
  have nd: "done_reg (done_reads st) AND 1 = 0" using 0(1) [of 0] by simp
  have "unat (timeout_ms c) < unat (system_time_ms st - start)" using 0(2) by simp
  then have "timeout_ms c < system_time_ms st - start" by (simp add: word_less_nat_alt)
  then show ?case by (simp add: wait_loop_not_done [of c done_reg st start, OF assms(1) nd])
next
  case (Suc d)
  have nd: "done_reg (done_reads st) AND 1 = 0" using Suc.prems(1) [of 0] by simp
  let ?st = "st\<lparr>done_reads := Suc (done_reads st), system_time_ms := system_time_ms st + 1\<rparr>"
  have le: "unat (system_time_ms st - start) \<le> unat (timeout_ms c)" using Suc.prems(2) by simp
  then have "\<not> timeout_ms c < system_time_ms st - start" by (simp add: word_less_nat_alt)
  then have step: "logistic_wait_loop done_reg (Some c) start st
      = logistic_wait_loop done_reg (Some c) start ?st"
    by (simp add: wait_loop_not_done [of c done_reg st start, OF assms(1) nd])
  have "unat (system_time_ms st - start) + 1 < 2 ^ 32" using le assms(2) by simp
  then have "unat (system_time_ms st - start + 1) = unat (system_time_ms st - start) + 1"
    by (simp add: unat_add_lem [THEN iffD1])
  then have e: "unat (system_time_ms ?st - start) + d = unat (timeout_ms c) + 1"
    using Suc.prems(2) by (simp add: add_diff_eq [symmetric] diff_add_eq)
  have "logistic_wait_loop done_reg (Some c) start ?st =
     Some (LOGISTIC_ERROR_TIMEOUT,
           ?st\<lparr>system_time_ms := system_time_ms ?st + of_nat d + 1,
              done_reads := done_reads ?st + d + 1\<rparr>)"
  proof (rule Suc.IH [OF _ e])
    show "done_reg (done_reads ?st + j) AND 1 = 0" if "j \<le> d" for j
      using Suc.prems(1) [of "Suc j"] that by simp
  qed
  then show ?case unfolding step by (simp add: add.commute add.left_commute)
qed

lemma wait_loop_ok:
  assumes "initialized c"
    and "done_reg (done_reads st + n) AND 1 \<noteq> 0"
    and "\<And>j. j < n \<Longrightarrow> done_reg (done_reads st + j) AND 1 = 0"
    and "unat (system_time_ms st - start) + n \<le> unat (timeout_ms c) + 1"
  shows "logistic_wait_loop done_reg (Some c) start st =
     Some (LOGISTIC_OK,
           st\<lparr>system_time_ms := system_time_ms st + of_nat n,
              done_reads := done_reads st + n + 1\<rparr>)"
  using assms(2,3,4)
proof (induction n arbitrary: st)
  case 0
  then show ?case by (simp add: wait_loop_is_done [of c done_reg st start, OF assms(1)])
next
  case (Suc n)
  have nd: "done_reg (done_reads st) AND 1 = 0" using Suc.prems(2) [of 0] by simp
  let ?st = "st\<lparr>done_reads := Suc (done_reads st), system_time_ms := system_time_ms st + 1\<rparr>"
  have le: "unat (system_time_ms st - start) \<le> unat (timeout_ms c)" using Suc.prems(3) by simp
  then have "\<not> timeout_ms c < system_time_ms st - start" by (simp add: word_less_nat_alt)
  then have step: "logistic_wait_loop done_reg (Some c) start st
      = logistic_wait_loop done_reg (Some c) start ?st"
    by (simp add: wait_loop_not_done [of c done_reg st start, OF assms(1) nd])
  have "unat (system_time_ms st - start + 1) \<le> unat (system_time_ms st - start) + 1"
    by (simp add: unat_word_ariths)
  then have e: "unat (system_time_ms ?st - start) + n \<le> unat (timeout_ms c) + 1"
    using Suc.prems(3) by (simp add: add_diff_eq [symmetric] diff_add_eq)
  have "logistic_wait_loop done_reg (Some c) start ?st =
     Some (LOGISTIC_OK,
           ?st\<lparr>system_time_ms := system_time_ms ?st + of_nat n,
              done_reads := done_reads ?st + n + 1\<rparr>)"
  proof (rule Suc.IH [OF _ _ e])
    show "done_reg (done_reads ?st + n) AND 1 \<noteq> 0" using Suc.prems(1) by simp
    show "done_reg (done_reads ?st + j) AND 1 = 0" if "j < n" for j
      using Suc.prems(2) [of "Suc j"] that by simp
  qed
  then show ?case unfolding step by (simp add: add.commute add.left_commute)
qed

lemma wait_done_start:
  "initialized c \<Longrightarrow>
   logistic_wait_done done_reg (Some c) st =
     logistic_wait_loop done_reg (Some c) (system_time_ms st)
       (st\<lparr>system_time_ms := system_time_ms st + 1\<rparr>)"
  by (simp add: logistic_wait_done_def get_time_ms_def)

section \<open>The two builds of the chunk primitive\<close>

lemma fold_add_sum_list:
  "fold (\<lambda>i r. r + f i) xs (a :: 'a :: comm_monoid_add) = a + sum_list (map f xs)"
  by (induction xs arbitrary: a) (simp_all add: add.assoc)

lemma c_trunc_of_int [simp]: "c_trunc (real_of_int k) = k"
  by (simp add: c_trunc_def)

lemma c_trunc_zero [simp]: "c_trunc 0 = 0"
  by (simp add: c_trunc_def)

lemma double_to_fixed_q16:
  "double_to_fixed (real_of_int a / 65536) FIXED_POINT_FRACTIONAL_BITS = word_of_int a"
  by (simp add: double_to_fixed_def FIXED_POINT_FRACTIONAL_BITS_def one_shl_pow)

lemma double_to_fixed_q16_product:
  "double_to_fixed (real_of_int a / 65536 * (real_of_int b / 65536)) FIXED_POINT_FRACTIONAL_BITS
     = word_of_int (c_trunc (real_of_int (a * b) / 65536))"
  by (simp add: double_to_fixed_def FIXED_POINT_FRACTIONAL_BITS_def one_shl_pow)

lemma double_to_fixed_zero [simp]: "double_to_fixed 0 F = 0"
  by (simp add: double_to_fixed_def c_trunc_def)

lemma hw_on_maps:
  "dot_product_result_hw (map F [0..<L]) (map G [0..<L])
     = (\<Sum>i\<leftarrow>[0..<L]. word_of_int (c_trunc (real_of_int (sint (F i) * sint (G i)) / 65536)))"
  unfolding dot_product_result_hw_def
  by (rule arg_cong [where f = sum_list]) (simp cong: map_cong)

lemma hw_split:
  assumes "n \<le> L"
  shows "dot_product_result_hw (map (\<lambda>i. if i < n then f i else 0) [0..<L])
           (map (\<lambda>i. if i < n then g i else 0) [0..<L])
         = (\<Sum>i\<leftarrow>[0..<n]. word_of_int (c_trunc (real_of_int (sint (f i) * sint (g i)) / 65536)))"
proof -
  have L: "[0..<L] = [0..<n] @ [n..<L]"
    using assms by (metis le_add_diff_inverse upt_add_eq_append zero_le)
  have "(\<Sum>i\<leftarrow>[0..<L]. word_of_int (c_trunc (real_of_int
            (sint (if i < n then f i else 0) * sint (if i < n then g i else (0 :: u32))) / 65536)) :: u32)
      = (\<Sum>i\<leftarrow>[0..<n]. word_of_int (c_trunc (real_of_int (sint (f i) * sint (g i)) / 65536)))
      + (\<Sum>i\<leftarrow>[n..<L]. (0 :: u32))"
    unfolding L map_append sum_list_append
    by (intro arg_cong2 [where f = "(+)"] arg_cong [where f = sum_list] map_cong) simp_all
  then show ?thesis by (simp add: hw_on_maps)
qed

text \<open>
  Whatever the unit computes, the build with the unit cannot tell the input \<open>2^-17\<close> from
  \<open>0\<close>: both reach it as the word \<open>0\<close>. The fallback can: against the weight \<open>2\<close> it
  returns \<open>1\<close> for the first and \<open>0\<close> for the second. So the two builds differ on one of
  these inputs for every result function \<open>hw\<close> and every lane count.
\<close>

lemma hardware_path_is_blind:
  "fst (dot_product_accel_compute_chunk True L hw (Some [1 / 131072]) (Some [2]) 1 s)
     = fst (dot_product_accel_compute_chunk True L hw (Some [0]) (Some [2]) 1 s)
   \<and> fst (dot_product_accel_compute_chunk False L hw (Some [1 / 131072]) (Some [2]) 1 s) = 1
   \<and> fst (dot_product_accel_compute_chunk False L hw (Some [0]) (Some [2]) 1 s) = 0"
proof -
  have small: "double_to_fixed (1 / 131072) FIXED_POINT_FRACTIONAL_BITS = 0"
    by (simp add: double_to_fixed_def FIXED_POINT_FRACTIONAL_BITS_def one_shl_pow c_trunc_def)
  have "fixed_lanes L [1 / 131072] 1 = fixed_lanes L [0] 1"
    unfolding fixed_lanes_def by (intro map_cong refl) (simp add: small)
  moreover have "double_to_fixed (1 / 131072 * 2) FIXED_POINT_FRACTIONAL_BITS = 1"
    by (simp add: double_to_fixed_def FIXED_POINT_FRACTIONAL_BITS_def one_shl_pow c_trunc_def)
  ultimately show ?thesis
    by (simp add: compute_chunk_hw compute_chunk_sw)
qed

section \<open>Zero padding\<close>

lemma lanes_at_pad:
  "lanes_at (xs @ replicate m 0) (length xs + m) k = lanes_at xs (length xs) k"
  unfolding lanes_at_def
  by (intro map_cong refl) (auto simp: nth_append)

lemma lanes_at_beyond:
  "n \<le> k * LOGISTIC_INPUT_SIZE \<Longrightarrow> lanes_at xs n k = replicate LOGISTIC_INPUT_SIZE 0"
  unfolding lanes_at_def
  by (intro nth_equalityI) simp_all

lemma chunks_beyond:
  assumes "(n + 7) div LOGISTIC_INPUT_SIZE \<le> k"
  shows "n \<le> k * LOGISTIC_INPUT_SIZE"
  using assms unfolding LOGISTIC_INPUT_SIZE_def by presburger

lemma chunk_total_pad:
  assumes "hw (replicate LOGISTIC_INPUT_SIZE 0) (replicate LOGISTIC_INPUT_SIZE 0) = 0"
    and "length ws = length xs"
  shows "chunk_total hw (xs @ replicate m 0) (ws @ replicate m 0) (length xs + m)
           = chunk_total hw xs ws (length xs)"
proof -
  let ?c = "(length xs + 7) div LOGISTIC_INPUT_SIZE"
  let ?c' = "(length xs + m + 7) div LOGISTIC_INPUT_SIZE"
  have le: "?c \<le> ?c'" by (intro div_le_mono) simp
  have split: "[0..<?c'] = [0..<?c] @ [?c..<?c']"
    using le by (metis le_add_diff_inverse upt_add_eq_append zero_le)
  have same: "lanes_at (xs @ replicate m 0) (length xs + m) k = lanes_at xs (length xs) k"
    "lanes_at (ws @ replicate m 0) (length xs + m) k = lanes_at ws (length xs) k" for k
    using lanes_at_pad [of xs m k] lanes_at_pad [of ws m k] assms(2) by simp_all
  have zero: "ucast (hw (lanes_at xs (length xs) k) (lanes_at ws (length xs) k)) = (0 :: u64)"
    if "k \<in> set [?c..<?c']" for k
  proof -
    from that have "length xs \<le> k * LOGISTIC_INPUT_SIZE" by (intro chunks_beyond) simp
    then show ?thesis by (simp add: lanes_at_beyond assms(1))
  qed
  have "(\<Sum>k\<leftarrow>[?c..<?c']. ucast (hw (lanes_at xs (length xs) k) (lanes_at ws (length xs) k)) :: u64)
      = (\<Sum>k\<leftarrow>[?c..<?c']. 0)"
    by (intro arg_cong [where f = sum_list] map_cong refl zero)
  then show ?thesis
    unfolding chunk_total_def same split map_append sum_list_append by simp
qed

lemma hw_lanes_unpadded:
  "logistic_result_hw (lanes_at xs n k) (lanes_at ws n k)
     = (\<Sum>j\<leftarrow>[k * LOGISTIC_INPUT_SIZE..<min (k * LOGISTIC_INPUT_SIZE + LOGISTIC_INPUT_SIZE) n].
          xs ! j * ws ! j)"
proof -
  define c where "c = min LOGISTIC_INPUT_SIZE (n - k * LOGISTIC_INPUT_SIZE)"
  define f where "f j = xs ! j * ws ! j" for j
  have c: "c \<le> LOGISTIC_INPUT_SIZE" by (simp add: c_def)
  have split: "[0..<LOGISTIC_INPUT_SIZE] = [0..<c] @ [c..<LOGISTIC_INPUT_SIZE]"
    using c by (metis le_add_diff_inverse upt_add_eq_append zero_le)
  have "logistic_result_hw (lanes_at xs n k) (lanes_at ws n k)
      = (\<Sum>i\<leftarrow>[0..<LOGISTIC_INPUT_SIZE].
           if k * LOGISTIC_INPUT_SIZE + i < n then f (k * LOGISTIC_INPUT_SIZE + i) else 0)"
    unfolding logistic_result_hw_def lanes_at_def f_def
    by (intro arg_cong [where f = sum_list] map_cong refl) simp
  also have "\<dots> = (\<Sum>i\<leftarrow>[0..<c]. f (k * LOGISTIC_INPUT_SIZE + i))
                  + (\<Sum>i\<leftarrow>[c..<LOGISTIC_INPUT_SIZE]. 0)"
    unfolding split map_append sum_list_append
    by (intro arg_cong2 [where f = "(+)"] arg_cong [where f = sum_list] map_cong refl)
       (auto simp: c_def)
  also have "\<dots> = (\<Sum>j\<leftarrow>map (\<lambda>i. i + k * LOGISTIC_INPUT_SIZE) [0..<c]. f j)"
    by (simp add: comp_def add.commute)
  also have "map (\<lambda>i. i + k * LOGISTIC_INPUT_SIZE) [0..<c]
      = [k * LOGISTIC_INPUT_SIZE..<c + k * LOGISTIC_INPUT_SIZE]"
    by (rule map_add_upt)
  also have "[k * LOGISTIC_INPUT_SIZE..<c + k * LOGISTIC_INPUT_SIZE]
      = [k * LOGISTIC_INPUT_SIZE..<min (k * LOGISTIC_INPUT_SIZE + LOGISTIC_INPUT_SIZE) n]"
  proof (cases "k * LOGISTIC_INPUT_SIZE \<le> n")
    case True
    then have "c + k * LOGISTIC_INPUT_SIZE = min (k * LOGISTIC_INPUT_SIZE + LOGISTIC_INPUT_SIZE) n"
      unfolding c_def min_def by auto
    then show ?thesis by simp
  next
    case False
    then show ?thesis by (simp add: c_def)
  qed
  finally show ?thesis by (simp add: f_def)
qed

lemma concat_chunks:
  "concat (map (\<lambda>k. [k * LOGISTIC_INPUT_SIZE..<min (k * LOGISTIC_INPUT_SIZE + LOGISTIC_INPUT_SIZE) n])
             [0..<c])
     = [0..<min (c * LOGISTIC_INPUT_SIZE) n]"
proof (induction c)
  case 0
  show ?case by simp
next
  case (Suc c)
  have "[0..<min (c * LOGISTIC_INPUT_SIZE) n]
        @ [c * LOGISTIC_INPUT_SIZE..<min (c * LOGISTIC_INPUT_SIZE + LOGISTIC_INPUT_SIZE) n]
      = [0..<min (Suc c * LOGISTIC_INPUT_SIZE) n]"
  proof (cases "c * LOGISTIC_INPUT_SIZE \<le> n")
    case True
    then have m: "min (c * LOGISTIC_INPUT_SIZE) n = c * LOGISTIC_INPUT_SIZE" by simp
    have "c * LOGISTIC_INPUT_SIZE \<le> min (c * LOGISTIC_INPUT_SIZE + LOGISTIC_INPUT_SIZE) n"
      using True by simp
    then have "[0..<c * LOGISTIC_INPUT_SIZE]
        @ [c * LOGISTIC_INPUT_SIZE..<min (c * LOGISTIC_INPUT_SIZE + LOGISTIC_INPUT_SIZE) n]
        = [0..<min (c * LOGISTIC_INPUT_SIZE + LOGISTIC_INPUT_SIZE) n]"
      by (metis le_add_diff_inverse upt_add_eq_append zero_le)
    then show ?thesis unfolding m by (simp add: add.commute)
  next
    case False
    then show ?thesis by (simp add: min_def)
  qed
  then show ?case using Suc.IH by simp
qed

lemma word_dot_of_nat:
  "(\<Sum>j\<leftarrow>js. xs ! j * ws ! j :: u32) = word_of_nat (\<Sum>j\<leftarrow>js. unat (xs ! j) * unat (ws ! j))"
  by (induction js) simp_all

lemma ucast_small: "N < 2 ^ 32 \<Longrightarrow> (ucast (word_of_nat N :: u32) :: u64) = word_of_nat N"
  by (simp add: unsigned_of_nat take_bit_nat_eq_self)

lemma sum_list_of_nat_word:
  "(\<Sum>k\<leftarrow>ks. word_of_nat (g k) :: u64) = word_of_nat (\<Sum>k\<leftarrow>ks. g k)"
  by (induction ks) simp_all

lemma sum_list_concat_map:
  "(\<Sum>j\<leftarrow>concat (map g ks). (F j :: nat)) = (\<Sum>k\<leftarrow>ks. \<Sum>j\<leftarrow>g k. F j)"
  by (induction ks) simp_all

lemma ceil_covers: "min ((n + 7) div LOGISTIC_INPUT_SIZE * LOGISTIC_INPUT_SIZE) n = n"
  unfolding LOGISTIC_INPUT_SIZE_def by presburger

lemma chunk_total_exact:
  assumes "\<And>k. k < (n + 7) div LOGISTIC_INPUT_SIZE \<Longrightarrow>
      (\<Sum>j\<leftarrow>[k * LOGISTIC_INPUT_SIZE..<min (k * LOGISTIC_INPUT_SIZE + LOGISTIC_INPUT_SIZE) n].
          unat (xs ! j) * unat (ws ! j)) < 2 ^ 32"
  shows "chunk_total logistic_result_hw xs ws n
           = word_of_nat (\<Sum>j\<leftarrow>[0..<n]. unat (xs ! j) * unat (ws ! j))"
proof -
  let ?c = "(n + 7) div LOGISTIC_INPUT_SIZE"
  let ?js = "\<lambda>k. [k * LOGISTIC_INPUT_SIZE..<min (k * LOGISTIC_INPUT_SIZE + LOGISTIC_INPUT_SIZE) n]"
  let ?F = "\<lambda>j. unat (xs ! j) * unat (ws ! j)"
  have "chunk_total logistic_result_hw xs ws n
      = (\<Sum>k\<leftarrow>[0..<?c]. word_of_nat (\<Sum>j\<leftarrow>?js k. ?F j))"
    unfolding chunk_total_def
  proof (intro arg_cong [where f = sum_list] map_cong refl)
    fix k assume "k \<in> set [0..<?c]"
    then have "(\<Sum>j\<leftarrow>?js k. ?F j) < 2 ^ 32" using assms by simp
    then show "(ucast (logistic_result_hw (lanes_at xs n k) (lanes_at ws n k)) :: u64)
        = word_of_nat (\<Sum>j\<leftarrow>?js k. ?F j)"
      by (simp only: hw_lanes_unpadded word_dot_of_nat ucast_small)
  qed
  also have "\<dots> = word_of_nat (\<Sum>k\<leftarrow>[0..<?c]. \<Sum>j\<leftarrow>?js k. ?F j)"
    by (rule sum_list_of_nat_word)
  also have "(\<Sum>k\<leftarrow>[0..<?c]. \<Sum>j\<leftarrow>?js k. ?F j) = (\<Sum>j\<leftarrow>concat (map ?js [0..<?c]). ?F j)"
    by (rule sum_list_concat_map [symmetric])
  also have "concat (map ?js [0..<?c]) = [0..<n]"
    by (simp only: concat_chunks ceil_covers)
  finally show ?thesis .
qed

lemma chunk_value_drop:
  assumes "n \<le> length xs" and "n \<le> length ws" and "k * L \<le> n"
  shows "chunk_value avail L hw (drop (k * L) xs) (drop (k * L) ws) (int (min L (n - k * L)))
           = chunk_value_at avail L hw xs ws n k"
proof -
  have kx: "k * L \<le> length xs" and kw: "k * L \<le> length ws" using assms by simp_all
  have lanes: "fixed_lanes L (drop (k * L) ys) (int (min L (n - k * L))) = q16_lanes L ys n k"
    if "k * L \<le> length ys" for ys
    unfolding fixed_lanes_def q16_lanes_def using that assms(3)
    by (intro map_cong refl) auto
  have "[0..<nat (int (min L (n - k * L)))] = [0..<min L (n - k * L)]" by simp
  have sw: "fold (\<lambda>i result. result +
                 double_to_fixed (drop (k * L) xs ! i * drop (k * L) ws ! i)
                   FIXED_POINT_FRACTIONAL_BITS) [0..<nat (int (min L (n - k * L)))] (0 :: i32)
      = (\<Sum>j\<leftarrow>[k * L..<min (k * L + L) n].
              double_to_fixed (xs ! j * ws ! j) FIXED_POINT_FRACTIONAL_BITS)"
  proof -
    have "fold (\<lambda>i result. result +
                 double_to_fixed (drop (k * L) xs ! i * drop (k * L) ws ! i)
                   FIXED_POINT_FRACTIONAL_BITS) [0..<nat (int (min L (n - k * L)))] (0 :: i32)
        = (\<Sum>i\<leftarrow>[0..<min L (n - k * L)].
              double_to_fixed (xs ! (i + k * L) * ws ! (i + k * L)) FIXED_POINT_FRACTIONAL_BITS)"
      using kx kw by (simp add: fold_add_sum_list add.commute cong: map_cong)
    also have "\<dots> = (\<Sum>j\<leftarrow>map (\<lambda>i. i + k * L) [0..<min L (n - k * L)].
              double_to_fixed (xs ! j * ws ! j) FIXED_POINT_FRACTIONAL_BITS)"
      by (simp add: comp_def)
    also have "map (\<lambda>i. i + k * L) [0..<min L (n - k * L)] = [k * L..<min L (n - k * L) + k * L]"
      by (rule map_add_upt)
    also have "min L (n - k * L) + k * L = min (k * L + L) n"
      using assms(3) unfolding min_def by auto
    finally show ?thesis .
  qed
  show ?thesis
    unfolding chunk_value_def chunk_value_at_def
    by (simp only: lanes [OF kx] lanes [OF kw] sw)
qed

lemma ceil_less_iff:
  assumes "0 < (L :: nat)"
  shows "k < (n + L - 1) div L \<longleftrightarrow> k * L < n"
proof -
  have "(n + L - 1) div L < Suc k \<longleftrightarrow> n + L - 1 < Suc k * L"
    using assms by (simp add: div_less_iff_less_mult)
  then have "\<not> k < (n + L - 1) div L \<longleftrightarrow> n + L - 1 < Suc k * L"
    by (simp add: not_less less_Suc_eq_le)
  also have "\<dots> \<longleftrightarrow> \<not> k * L < n" using assms by auto
  finally show ?thesis by blast
qed

lemma dp_value:
  assumes "0 < L" and "L < 2 ^ 31" and "n \<le> length xs" and "n \<le> length ws"
  shows "fst (dot_product_accel_dot_product avail L hw n (Some xs) (Some ws) s)
           = fixed64_to_double (dot_product_total avail L hw xs ws n) FIXED_POINT_FRACTIONAL_BITS"
proof -
  obtain p' tot' s1 where
    fc: "dot_product_full_chunks avail L hw n (Some xs) (Some ws) 0 0 s = (p', tot', s1)"
    by (metis prod_cases3)
  define q where "q = n div L"
  have full: "scast (chunk_value avail L hw (drop (0 + k * L) xs) (drop (0 + k * L) ws) (int L))
      = (scast (chunk_value_at avail L hw xs ws n k) :: i64)" if "k \<in> {..<q}" for k
  proof -
    from that have "Suc k * L \<le> q * L" by (intro mult_le_mono1) simp
    also have "\<dots> \<le> n" by (simp add: q_def)
    finally have le: "k * L + L \<le> n" by simp
    then have "min L (n - k * L) = L" and "k * L \<le> n" by simp_all
    with chunk_value_drop [OF assms(3,4), of k L avail hw] show ?thesis by simp
  qed
  from dp_full_chunks_parts [OF assms(1) fc]
  have p': "p' = q * L"
    and t0: "tot' = (\<Sum>k<q. scast (chunk_value avail L hw (drop (0 + k * L) xs)
                                    (drop (0 + k * L) ws) (int L)))"
    by (simp_all add: q_def)
  note t0
  moreover have "(\<Sum>k<q. scast (chunk_value avail L hw (drop (0 + k * L) xs)
                                    (drop (0 + k * L) ws) (int L)) :: i64)
      = (\<Sum>k<q. scast (chunk_value_at avail L hw xs ws n k))"
    by (rule sum.cong [OF refl]) (rule full)
  ultimately have "tot' = (\<Sum>k<q. scast (chunk_value_at avail L hw xs ws n k))"
    by (simp only:)
  then have tot': "tot' = (\<Sum>k\<leftarrow>[0..<q]. scast (chunk_value_at avail L hw xs ws n k))"
    by (simp add: interv_sum_list_conv_sum_set_nat atLeast0LessThan)
  have lt: "p' < n \<longleftrightarrow> n mod L \<noteq> 0"
    unfolding p' q_def using div_mult_mod_eq [of n L] by arith
  show ?thesis
  proof (cases "p' < n")
    case True
    then have m: "n mod L \<noteq> 0" using lt by simp
    have rem: "n - p' = n mod L" unfolding p' q_def by (simp add: minus_div_mult_eq_mod)
    have "n mod L < L" using assms(1) by simp
    then have small: "n mod L < 2 ^ 31" using assms(2) by simp
    have mn: "min L (n - q * L) = n mod L"
      using rem p' \<open>n mod L < L\<close> by simp
    have "q * L \<le> n" by (simp add: q_def)
    from chunk_value_drop [OF assms(3,4) this, of avail hw]
    have last: "chunk_value avail L hw (drop p' xs) (drop p' ws) (int_of_size (n - p'))
        = chunk_value_at avail L hw xs ws n q"
      using rem by (simp add: int_of_size_small [OF small] mn p')
    have "fst (dot_product_accel_dot_product avail L hw n (Some xs) (Some ws) s)
        = fixed64_to_double (tot' + scast (chunk_value_at avail L hw xs ws n q))
            FIXED_POINT_FRACTIONAL_BITS"
      using True compute_chunk_value [of avail L hw "drop p' xs" "drop p' ws"
          "int_of_size (n - p')" s1]
      by (simp add: dot_product_accel_dot_product_def fc case_prod_beta last)
    moreover have "dot_product_total avail L hw xs ws n
        = tot' + scast (chunk_value_at avail L hw xs ws n q)"
      unfolding dot_product_total_def ceil_div_cases [OF assms(1)] tot'
      using m by (simp add: q_def)
    ultimately show ?thesis by simp
  next
    case False
    then have m: "n mod L = 0" using lt by simp
    have "fst (dot_product_accel_dot_product avail L hw n (Some xs) (Some ws) s)
        = fixed64_to_double tot' FIXED_POINT_FRACTIONAL_BITS"
      using False by (simp add: dot_product_accel_dot_product_def fc)
    moreover have "dot_product_total avail L hw xs ws n = tot'"
      unfolding dot_product_total_def ceil_div_cases [OF assms(1)] tot'
      using m by (simp add: q_def)
    ultimately show ?thesis by simp
  qed
qed

lemma q16_lanes_pad:
  "q16_lanes L (xs @ replicate m 0) (length xs + m) k = q16_lanes L xs (length xs) k"
  unfolding q16_lanes_def
  by (intro map_cong refl) (auto simp: nth_append)

lemma q16_lanes_beyond: "n \<le> k * L \<Longrightarrow> q16_lanes L xs n k = replicate L 0"
  unfolding q16_lanes_def
  by (intro nth_equalityI) simp_all

lemma sum_list_upt_vanish:
  assumes "\<And>j. n \<le> j \<Longrightarrow> g j = (0 :: 'a :: comm_monoid_add)"
  shows "(\<Sum>j\<leftarrow>[a..<b]. g j) = (\<Sum>j\<leftarrow>[a..<min b n]. g j)"
proof (cases "a \<le> min b n")
  case True
  then have "[a..<b] = [a..<min b n] @ [min b n..<b]"
    by (metis le_add_diff_inverse min.cobounded1 upt_add_eq_append)
  moreover have "(\<Sum>j\<leftarrow>[min b n..<b]. g j) = (\<Sum>j\<leftarrow>[min b n..<b]. 0)"
    by (intro arg_cong [where f = sum_list] map_cong refl assms) (auto simp: min_def split: if_splits)
  ultimately show ?thesis by simp
next
  case False
  then have "min b n \<le> a" unfolding min_def by (auto split: if_splits)
  then have e: "[a..<min b n] = []" by simp
  have "(\<Sum>j\<leftarrow>[a..<b]. g j) = (\<Sum>j\<leftarrow>[a..<b]. 0)"
    using False
    by (intro arg_cong [where f = sum_list] map_cong refl assms) (auto simp: min_def split: if_splits)
  then show ?thesis unfolding e by simp
qed

lemma chunk_value_at_pad:
  assumes "length ws = length xs"
  shows "chunk_value_at avail L hw (xs @ replicate m 0) (ws @ replicate m 0) (length xs + m) k
           = chunk_value_at avail L hw xs ws (length xs) k"
proof -
  define g where "g j = (if j < length xs
      then double_to_fixed (xs ! j * ws ! j) FIXED_POINT_FRACTIONAL_BITS else 0)" for j
  have "(\<Sum>j\<leftarrow>[k * L..<min (k * L + L) (length xs + m)].
            double_to_fixed ((xs @ replicate m 0) ! j * (ws @ replicate m 0) ! j)
              FIXED_POINT_FRACTIONAL_BITS)
      = (\<Sum>j\<leftarrow>[k * L..<min (k * L + L) (length xs + m)]. g j)"
    using assms by (intro arg_cong [where f = sum_list] map_cong refl) (auto simp: g_def nth_append)
  also have "\<dots> = (\<Sum>j\<leftarrow>[k * L..<min (min (k * L + L) (length xs + m)) (length xs)]. g j)"
    by (rule sum_list_upt_vanish) (simp add: g_def)
  also have "min (min (k * L + L) (length xs + m)) (length xs) = min (k * L + L) (length xs)"
    by simp
  also have "(\<Sum>j\<leftarrow>[k * L..<min (k * L + L) (length xs)]. g j)
      = (\<Sum>j\<leftarrow>[k * L..<min (k * L + L) (length xs)].
            double_to_fixed (xs ! j * ws ! j) FIXED_POINT_FRACTIONAL_BITS)"
    by (intro arg_cong [where f = sum_list] map_cong refl) (simp add: g_def)
  finally have sw: "(\<Sum>j\<leftarrow>[k * L..<min (k * L + L) (length xs + m)].
            double_to_fixed ((xs @ replicate m 0) ! j * (ws @ replicate m 0) ! j)
              FIXED_POINT_FRACTIONAL_BITS)
      = (\<Sum>j\<leftarrow>[k * L..<min (k * L + L) (length xs)].
            double_to_fixed (xs ! j * ws ! j) FIXED_POINT_FRACTIONAL_BITS)" .
  have "q16_lanes L (ws @ replicate m 0) (length xs + m) k = q16_lanes L ws (length xs) k"
    using q16_lanes_pad [of L ws m k] assms by simp
  then show ?thesis
    unfolding chunk_value_at_def by (simp only: q16_lanes_pad sw)
qed

lemma chunk_value_at_beyond:
  assumes "n \<le> k * L" and "avail \<longrightarrow> hw (replicate L 0) (replicate L 0) = 0"
  shows "chunk_value_at avail L hw xs ws n k = 0"
proof -
  have "min (k * L + L) n \<le> k * L" using assms(1) by simp
  then have "[k * L..<min (k * L + L) n] = []" by simp
  then show ?thesis
    using assms by (simp add: chunk_value_at_def q16_lanes_beyond)
qed

lemma dot_product_total_pad:
  assumes "0 < L" and "avail \<longrightarrow> hw (replicate L 0) (replicate L 0) = 0"
    and "length ws = length xs"
  shows "dot_product_total avail L hw (xs @ replicate m 0) (ws @ replicate m 0) (length xs + m)
           = dot_product_total avail L hw xs ws (length xs)"
proof -
  let ?c = "(length xs + L - 1) div L"
  let ?c' = "(length xs + m + L - 1) div L"
  have le: "?c \<le> ?c'" by (intro div_le_mono) simp
  have split: "[0..<?c'] = [0..<?c] @ [?c..<?c']"
    using le by (metis le_add_diff_inverse upt_add_eq_append zero_le)
  have zero: "scast (chunk_value_at avail L hw xs ws (length xs) k) = (0 :: i64)"
    if "k \<in> set [?c..<?c']" for k
  proof -
    from that have "\<not> k < ?c" by simp
    then have "\<not> k * L < length xs"
      using ceil_less_iff [OF assms(1), of k "length xs"] by blast
    then have "length xs \<le> k * L" by simp
    from chunk_value_at_beyond [of "length xs" k L avail hw xs ws, OF this assms(2)]
    show ?thesis by simp
  qed
  have "(\<Sum>k\<leftarrow>[?c..<?c']. scast (chunk_value_at avail L hw xs ws (length xs) k) :: i64)
      = (\<Sum>k\<leftarrow>[?c..<?c']. 0)"
    by (intro arg_cong [where f = sum_list] map_cong refl zero)
  then show ?thesis
    unfolding dot_product_total_def chunk_value_at_pad [OF assms(3)] split map_append sum_list_append
    by simp
qed

lemma chunk_total_unpadded:
  "chunk_total logistic_result_hw xs ws n
     = (\<Sum>k\<leftarrow>[0..<(n + 7) div LOGISTIC_INPUT_SIZE].
          ucast (\<Sum>j\<leftarrow>[k * LOGISTIC_INPUT_SIZE..<min (k * LOGISTIC_INPUT_SIZE + LOGISTIC_INPUT_SIZE) n].
                   xs ! j * ws ! j))"
  unfolding chunk_total_def by (simp only: hw_lanes_unpadded)

lemma logistic_hw_zero:
  "logistic_result_hw (replicate LOGISTIC_INPUT_SIZE 0) ws = 0"
proof -
  have m: "map (\<lambda>i. replicate LOGISTIC_INPUT_SIZE 0 ! i * ws ! i) [0..<LOGISTIC_INPUT_SIZE]
      = map (\<lambda>i. 0 :: u32) [0..<LOGISTIC_INPUT_SIZE]"
    by (intro map_cong refl) simp
  show ?thesis unfolding logistic_result_hw_def m by simp
qed

lemma dot_product_hw_zero:
  "dot_product_result_hw (replicate L 0) (replicate L 0) = 0"
proof -
  have "replicate L (0 :: u32) = map (\<lambda>i. if i < 0 then 0 else 0) [0..<L]"
    by (simp add: map_replicate_const)
  then have "dot_product_result_hw (replicate L 0) (replicate L 0)
      = dot_product_result_hw (map (\<lambda>i. if i < 0 then 0 else 0) [0..<L])
          (map (\<lambda>i. if i < 0 then 0 else 0) [0..<L])"
    by simp
  also have "\<dots> = 0"
    by (subst hw_split) simp_all
  finally show ?thesis .
qed

section \<open>The value of the Q16.16 engine\<close>

text \<open>
  On the range where no conversion and no addition of the source leaves its integer type,
  the sums of words are sums of integers: a chunk of the fallback is the integer sum of
  its truncated products, and the 64-bit total is the integer sum of the chunk values.
\<close>

lemma double_to_fixed_16:
  "double_to_fixed x FIXED_POINT_FRACTIONAL_BITS = word_of_int (c_trunc (x * 65536))"
  by (simp add: double_to_fixed_def FIXED_POINT_FRACTIONAL_BITS_def one_shl_pow)

lemma fixed64_to_double_16:
  "fixed64_to_double v FIXED_POINT_FRACTIONAL_BITS = real_of_int (sint v) / 65536"
  by (simp add: fixed64_to_double_def FIXED_POINT_FRACTIONAL_BITS_def one_shl_pow)

lemma sum_list_word_of_int:
  "(\<Sum>k\<leftarrow>ks. word_of_int (g k) :: 'a :: len word) = word_of_int (\<Sum>k\<leftarrow>ks. g k)"
  by (induction ks) simp_all

lemma sum_list_abs_le:
  "\<bar>\<Sum>k\<leftarrow>ks. (g k :: int)\<bar> \<le> (\<Sum>k\<leftarrow>ks. \<bar>g k\<bar>)"
  by (induction ks) auto

lemma sint32_sum:
  assumes "(\<Sum>j\<leftarrow>js. \<bar>g j\<bar>) < 2 ^ 31"
  shows "sint (\<Sum>j\<leftarrow>js. word_of_int (g j) :: i32) = (\<Sum>j\<leftarrow>js. g j)"
proof -
  have "\<bar>\<Sum>j\<leftarrow>js. g j\<bar> < 2 ^ 31"
    using sum_list_abs_le [of g js] assms by linarith
  then have "- (2 ^ 31) \<le> (\<Sum>j\<leftarrow>js. g j)" "(\<Sum>j\<leftarrow>js. g j) < 2 ^ 31"
    by (simp_all add: abs_less_iff)
  then show ?thesis unfolding sum_list_word_of_int by (rule sint_word_of_int_range)
qed

lemma scast_sint: "(scast (w :: i32) :: i64) = word_of_int (sint w)"
  by simp

lemma sint32_abs: "\<bar>sint (w :: i32)\<bar> \<le> 2 ^ 31"
  using sint_ge [of w] sint_lt [of w] by simp

lemma sint64_word_of_int_range:
  "- (2 ^ 63) \<le> k \<Longrightarrow> k < 2 ^ 63 \<Longrightarrow> sint (word_of_int k :: 64 word) = k"
  by (simp add: signed_of_int signed_take_bit_int_eq_self)

lemma sum_list_concat_gen:
  "(\<Sum>j\<leftarrow>concat (map g ks). (F j :: 'a :: comm_monoid_add)) = (\<Sum>k\<leftarrow>ks. \<Sum>j\<leftarrow>g k. F j)"
  by (induction ks) simp_all

lemma concat_chunks_gen:
  "concat (map (\<lambda>k. [k * L..<min (k * L + L) n]) [0..<c]) = [0..<min (c * L) n]"
proof (induction c)
  case 0
  show ?case by simp
next
  case (Suc c)
  have "[0..<min (c * L) n] @ [c * L..<min (c * L + L) n] = [0..<min (Suc c * L) n]"
  proof (cases "c * L \<le> n")
    case True
    then have m: "min (c * L) n = c * L" by simp
    have "c * L \<le> min (c * L + L) n"
      using True by simp
    then have "[0..<c * L] @ [c * L..<min (c * L + L) n] = [0..<min (c * L + L) n]"
      by (metis le_add_diff_inverse upt_add_eq_append zero_le)
    then show ?thesis unfolding m by (simp add: add.commute)
  next
    case False
    then show ?thesis by (simp add: min_def)
  qed
  then show ?case using Suc.IH by simp
qed

lemma ceil_covers_gen:
  assumes "0 < (L :: nat)"
  shows "min ((n + L - 1) div L * L) n = n"
proof -
  have "\<not> (n + L - 1) div L * L < n"
    using ceil_less_iff [OF assms, of "(n + L - 1) div L" n] by simp
  then show ?thesis by simp
qed

lemma ceil_le_self:
  assumes "0 < (L :: nat)"
  shows "(n + L - 1) div L \<le> n"
proof -
  have "(n + L - 1) div L \<le> (n * L) div L"
  proof (cases "n = 0")
    case True
    then show ?thesis using assms by simp
  next
    case False
    then have "n + L - 1 \<le> n * L"
      using assms by (cases n; cases L; simp)
    then show ?thesis by (rule div_le_mono)
  qed
  then show ?thesis using assms by simp
qed

lemma sum_list_bounded_le:
  assumes "\<And>k. k \<in> set ks \<Longrightarrow> \<bar>f k\<bar> \<le> (B :: int)"
  shows "\<bar>\<Sum>k\<leftarrow>ks. f k\<bar> \<le> int (length ks) * B"
  using assms
proof (induction ks)
  case Nil
  show ?case by simp
next
  case (Cons k ks)
  have "\<bar>f k\<bar> \<le> B" by (rule Cons.prems) simp
  moreover have "\<bar>\<Sum>k\<leftarrow>ks. f k\<bar> \<le> int (length ks) * B"
    by (rule Cons.IH) (simp add: Cons.prems)
  ultimately show ?case by (simp add: algebra_simps)
qed

text \<open>
  Fewer than \<open>2^32\<close> elements make fewer than \<open>2^32\<close> chunks, and that many 32-bit chunk
  values do not overflow the \<^verbatim>\<open>int64_t\<close> total.
\<close>

lemma chunks_sum_range:
  assumes "0 < L" and "n < 2 ^ 32" and "\<And>k. k < (n + L - 1) div L \<Longrightarrow> \<bar>f k\<bar> \<le> 2 ^ 31"
  shows "\<bar>\<Sum>k\<leftarrow>[0..<(n + L - 1) div L]. (f k :: int)\<bar> < 2 ^ 63"
proof -
  let ?c = "(n + L - 1) div L"
  have "\<bar>\<Sum>k\<leftarrow>[0..<?c]. f k\<bar> \<le> int (length [0..<?c]) * 2 ^ 31"
  proof (rule sum_list_bounded_le)
    fix k assume "k \<in> set [0..<?c]"
    then have "k < ?c" by simp
    then show "\<bar>f k\<bar> \<le> 2 ^ 31" by (rule assms(3))
  qed
  also have "\<dots> = int ?c * 2 ^ 31" by simp
  also have "\<dots> \<le> int n * 2 ^ 31"
    using ceil_le_self [OF assms(1), of n] by simp
  also have "\<dots> < 2 ^ 32 * 2 ^ 31"
    using assms(2) by simp
  finally show ?thesis by simp
qed

lemma dp_value_hw_int:
  assumes "0 < L" and "L < 2 ^ 31" and "n \<le> length xs" and "n \<le> length ws" and "n < 2 ^ 32"
  shows "fst (dot_product_accel_dot_product True L hw n (Some xs) (Some ws) s)
           = real_of_int (\<Sum>k\<leftarrow>[0..<(n + L - 1) div L].
                 sint (hw (q16_lanes L xs n k) (q16_lanes L ws n k))) / 65536"
proof -
  let ?v = "\<lambda>k. sint (hw (q16_lanes L xs n k) (q16_lanes L ws n k))"
  let ?S = "\<Sum>k\<leftarrow>[0..<(n + L - 1) div L]. ?v k"
  have "\<bar>?S\<bar> < 2 ^ 63"
    by (rule chunks_sum_range [OF assms(1,5)]) (rule sint32_abs)
  then have "- (2 ^ 63) \<le> ?S" "?S < 2 ^ 63" by (simp_all add: abs_less_iff)
  then have "sint (word_of_int ?S :: i64) = ?S" by (rule sint64_word_of_int_range)
  moreover have "dot_product_total True L hw xs ws n = word_of_int ?S"
    unfolding dot_product_total_def chunk_value_at_def if_True scast_sint
    by (rule sum_list_word_of_int)
  ultimately show ?thesis
    by (simp only: dp_value [OF assms(1-4)] fixed64_to_double_16)
qed

lemma dp_total_sw:
  assumes "0 < L"
    and "\<And>k. k < (n + L - 1) div L \<Longrightarrow>
          (\<Sum>j\<leftarrow>[k * L..<min (k * L + L) n]. \<bar>c_trunc (xs ! j * ws ! j * 65536)\<bar>) < 2 ^ 31"
  shows "dot_product_total False L hw xs ws n
           = word_of_int (\<Sum>j\<leftarrow>[0..<n]. c_trunc (xs ! j * ws ! j * 65536))"
proof -
  let ?c = "(n + L - 1) div L"
  let ?js = "\<lambda>k. [k * L..<min (k * L + L) n]"
  let ?p = "\<lambda>j. c_trunc (xs ! j * ws ! j * 65536)"
  have "dot_product_total False L hw xs ws n = (\<Sum>k\<leftarrow>[0..<?c]. word_of_int (\<Sum>j\<leftarrow>?js k. ?p j))"
    unfolding dot_product_total_def
  proof (intro arg_cong [where f = sum_list] map_cong refl)
    fix k assume "k \<in> set [0..<?c]"
    then have "(\<Sum>j\<leftarrow>?js k. \<bar>?p j\<bar>) < 2 ^ 31" using assms(2) by simp
    then have "sint (\<Sum>j\<leftarrow>?js k. word_of_int (?p j) :: i32) = (\<Sum>j\<leftarrow>?js k. ?p j)"
      by (rule sint32_sum)
    then show "(scast (chunk_value_at False L hw xs ws n k) :: i64) = word_of_int (\<Sum>j\<leftarrow>?js k. ?p j)"
      by (simp only: chunk_value_at_def if_False double_to_fixed_16 scast_sint)
  qed
  also have "\<dots> = word_of_int (\<Sum>k\<leftarrow>[0..<?c]. \<Sum>j\<leftarrow>?js k. ?p j)"
    by (rule sum_list_word_of_int)
  also have "(\<Sum>k\<leftarrow>[0..<?c]. \<Sum>j\<leftarrow>?js k. ?p j) = (\<Sum>j\<leftarrow>concat (map ?js [0..<?c]). ?p j)"
    by (rule sum_list_concat_gen [symmetric])
  also have "concat (map ?js [0..<?c]) = [0..<n]"
    by (simp only: concat_chunks_gen ceil_covers_gen [OF assms(1)])
  finally show ?thesis .
qed

lemma dp_total_sw_range:
  assumes "0 < L" and "n < 2 ^ 32"
    and "\<And>k. k < (n + L - 1) div L \<Longrightarrow>
          (\<Sum>j\<leftarrow>[k * L..<min (k * L + L) n]. \<bar>c_trunc (xs ! j * ws ! j * 65536)\<bar>) < 2 ^ 31"
  shows "\<bar>\<Sum>j\<leftarrow>[0..<n]. c_trunc (xs ! j * ws ! j * 65536)\<bar> < 2 ^ 63"
proof -
  let ?c = "(n + L - 1) div L"
  let ?js = "\<lambda>k. [k * L..<min (k * L + L) n]"
  let ?p = "\<lambda>j. c_trunc (xs ! j * ws ! j * 65536)"
  have "concat (map ?js [0..<?c]) = [0..<n]"
    by (simp only: concat_chunks_gen ceil_covers_gen [OF assms(1)])
  then have "(\<Sum>j\<leftarrow>[0..<n]. ?p j) = (\<Sum>j\<leftarrow>concat (map ?js [0..<?c]). ?p j)"
    by simp
  also have "\<dots> = (\<Sum>k\<leftarrow>[0..<?c]. \<Sum>j\<leftarrow>?js k. ?p j)"
    by (rule sum_list_concat_gen)
  finally have eq: "(\<Sum>j\<leftarrow>[0..<n]. ?p j) = (\<Sum>k\<leftarrow>[0..<?c]. \<Sum>j\<leftarrow>?js k. ?p j)" .
  have "\<bar>\<Sum>k\<leftarrow>[0..<?c]. \<Sum>j\<leftarrow>?js k. ?p j\<bar> < 2 ^ 63"
  proof (rule chunks_sum_range [OF assms(1,2)])
    fix k assume "k < ?c"
    then have "(\<Sum>j\<leftarrow>?js k. \<bar>?p j\<bar>) < 2 ^ 31" by (rule assms(3))
    then show "\<bar>\<Sum>j\<leftarrow>?js k. ?p j\<bar> \<le> 2 ^ 31"
      using sum_list_abs_le [of ?p "?js k"] by linarith
  qed
  then show ?thesis by (simp only: eq)
qed

lemma dp_value_sw:
  assumes "0 < L" and "L < 2 ^ 31" and "n \<le> length xs" and "n \<le> length ws" and "n < 2 ^ 32"
    and "\<And>k. k < (n + L - 1) div L \<Longrightarrow>
          (\<Sum>j\<leftarrow>[k * L..<min (k * L + L) n]. \<bar>c_trunc (xs ! j * ws ! j * 65536)\<bar>) < 2 ^ 31"
  shows "fst (dot_product_accel_dot_product False L hw n (Some xs) (Some ws) s)
           = real_of_int (\<Sum>j\<leftarrow>[0..<n]. c_trunc (xs ! j * ws ! j * 65536)) / 65536"
proof -
  let ?S = "\<Sum>j\<leftarrow>[0..<n]. c_trunc (xs ! j * ws ! j * 65536)"
  have "\<bar>?S\<bar> < 2 ^ 63" by (rule dp_total_sw_range [OF assms(1,5,6)])
  then have "- (2 ^ 63) \<le> ?S" "?S < 2 ^ 63" by (simp_all add: abs_less_iff)
  then have "sint (word_of_int ?S :: i64) = ?S" by (rule sint64_word_of_int_range)
  then show ?thesis
    by (simp only: dp_value [OF assms(1-4)] dp_total_sw [OF assms(1,6)] fixed64_to_double_16)
qed

text \<open>
  Truncation moves each product by less than one unit of the last place, and not at all
  when the product is itself a Q16.16 value.
\<close>

lemma trunc_sum_close:
  "\<bar>real_of_int (\<Sum>j\<leftarrow>js. c_trunc (f j)) - (\<Sum>j\<leftarrow>js. f j)\<bar> \<le> real (length js)"
proof (induction js)
  case Nil
  show ?case by simp
next
  case (Cons j js)
  have "\<bar>real_of_int (c_trunc (f j)) - f j\<bar> < 1" by (rule c_trunc_close)
  with Cons.IH show ?case by simp
qed

lemma trunc_sum_exact:
  assumes "\<And>j. j \<in> set js \<Longrightarrow> f j \<in> \<int>"
  shows "real_of_int (\<Sum>j\<leftarrow>js. c_trunc (f j)) = (\<Sum>j\<leftarrow>js. f j)"
  using assms
proof (induction js)
  case Nil
  show ?case by simp
next
  case (Cons j js)
  have "f j \<in> \<int>" by (rule Cons.prems) simp
  then obtain z where "f j = real_of_int z" by (rule Ints_cases)
  then have "real_of_int (c_trunc (f j)) = f j" by simp
  moreover have "real_of_int (\<Sum>j\<leftarrow>js. c_trunc (f j)) = (\<Sum>j\<leftarrow>js. f j)"
    by (rule Cons.IH) (simp add: Cons.prems)
  ultimately show ?case by simp
qed

lemma sum_list_scale:
  "(\<Sum>j\<leftarrow>js. f j * (c :: real)) = (\<Sum>j\<leftarrow>js. f j) * c"
  by (induction js) (simp_all add: algebra_simps)

text \<open>
  The eight-lane unit modelled from the spec passes the driver's own test: \<open>36\<close> for the
  inputs \<open>1..8\<close> against all-ones weights, \<open>0\<close> for zero inputs.
\<close>

lemma self_test_passes:
  "fst (logistic_self_test logistic_result_hw s) = 0"
proof -
  have a: "logistic_result_hw (head8 [1, 2, 3, 4, 5, 6, 7, 8]) (head8 [1, 1, 1, 1, 1, 1, 1, 1]) = 36"
    by code_simp
  have b: "logistic_result_hw (head8 (replicate LOGISTIC_INPUT_SIZE 0))
             (head8 [1, 1, 1, 1, 1, 1, 1, 1]) = 0"
    by code_simp
  show ?thesis
    by (simp add: logistic_self_test_def compute_Some a b)
qed

section \<open>The claims\<close>

text \<open>
  C10. A call of \<^verbatim>\<open>logistic_process_chunks\<close> with non-\<^verbatim>\<open>NULL\<close> arguments adds to the
  cell behind \<open>accumulator\<close> and never resets it: the cell ends at its initial value plus
  the sum of the per-chunk results of the first \<open>data_size\<close> elements, so a second call
  on the same cell continues the running total, and a call with \<open>data_size = 0\<close> returns
  \<open>0\<close> chunks and leaves the cell (and the registers) unchanged. The bounds on the
  lengths say that the arrays hold the \<open>data_size\<close> elements the call reads.
\<close>

theorem process_chunks_accumulates:
  assumes "data_size \<le> length inputs" and "data_size \<le> length weights"
    and "m \<le> length inputs'" and "m \<le> length weights'"
  shows "fst (snd (logistic_process_chunks hw (Some inputs) (Some weights) data_size (Some acc) s))
           = Some (acc + chunk_total hw inputs weights data_size)
       \<and> fst (snd (logistic_process_chunks hw (Some inputs') (Some weights') m
             (fst (snd (logistic_process_chunks hw (Some inputs) (Some weights) data_size
                          (Some acc) s))) s'))
           = Some (acc + chunk_total hw inputs weights data_size + chunk_total hw inputs' weights' m)
       \<and> logistic_process_chunks hw (Some inputs) (Some weights) 0 (Some acc) s = (0, Some acc, s)"
proof -
  have zero: "logistic_process_chunks hw (Some inputs) (Some weights) 0 (Some acc) s = (0, Some acc, s)"
    by (simp add: logistic_process_chunks_def full_chunks_stop LOGISTIC_INPUT_SIZE_def
        int_of_size_def)
  show ?thesis
    by (simp add: process_chunks_acc [OF assms(1,2)] process_chunks_acc [OF assms(3,4)] zero)
qed

theorem process_chunks_accumulates_witness:
  "fst (snd (logistic_process_chunks logistic_result_hw
        (Some [1, 2, 3, 4, 5, 6, 7, 8, 2, 4, 6, 8, 10, 12, 14, 16, 1, 1, 1, 1, 1, 1, 1, 1])
        (Some (replicate 24 1)) 24 (Some 0)
        \<lparr>logistic_input = [], logistic_weight = [], result_reads = 0\<rparr>)) = Some 116
   \<and> fst (snd (logistic_process_chunks logistic_result_hw (Some [5, 6, 7]) (Some [1, 2, 3]) 3
        (fst (snd (logistic_process_chunks logistic_result_hw
        (Some [1, 2, 3, 4, 5, 6, 7, 8, 2, 4, 6, 8, 10, 12, 14, 16, 1, 1, 1, 1, 1, 1, 1, 1])
        (Some (replicate 24 1)) 24 (Some 0)
        \<lparr>logistic_input = [], logistic_weight = [], result_reads = 0\<rparr>)))
        \<lparr>logistic_input = [], logistic_weight = [], result_reads = 3\<rparr>)) = Some 154"
proof -
  have a: "chunk_total logistic_result_hw
      [1, 2, 3, 4, 5, 6, 7, 8, 2, 4, 6, 8, 10, 12, 14, 16, 1, 1, 1, 1, 1, 1, 1, 1]
      (replicate 24 1) 24 = 116"
    by code_simp
  have b: "chunk_total logistic_result_hw [5, 6, 7] [1, 2, 3] 3 = 38"
    by code_simp
  have th: "fst (snd (logistic_process_chunks logistic_result_hw
        (Some [1, 2, 3, 4, 5, 6, 7, 8, 2, 4, 6, 8, 10, 12, 14, 16, 1, 1, 1, 1, 1, 1, 1, 1])
        (Some (replicate 24 1)) 24 (Some 0)
        \<lparr>logistic_input = [], logistic_weight = [], result_reads = 0\<rparr>)) = Some (0 + 116)
   \<and> fst (snd (logistic_process_chunks logistic_result_hw (Some [5, 6, 7]) (Some [1, 2, 3]) 3
        (fst (snd (logistic_process_chunks logistic_result_hw
        (Some [1, 2, 3, 4, 5, 6, 7, 8, 2, 4, 6, 8, 10, 12, 14, 16, 1, 1, 1, 1, 1, 1, 1, 1])
        (Some (replicate 24 1)) 24 (Some 0)
        \<lparr>logistic_input = [], logistic_weight = [], result_reads = 0\<rparr>)))
        \<lparr>logistic_input = [], logistic_weight = [], result_reads = 3\<rparr>)) = Some (0 + 116 + 38)
   \<and> logistic_process_chunks logistic_result_hw
        (Some [1, 2, 3, 4, 5, 6, 7, 8, 2, 4, 6, 8, 10, 12, 14, 16, 1, 1, 1, 1, 1, 1, 1, 1])
        (Some (replicate 24 1)) 0 (Some 0)
        \<lparr>logistic_input = [], logistic_weight = [], result_reads = 0\<rparr>
      = (0, Some 0, \<lparr>logistic_input = [], logistic_weight = [], result_reads = 0\<rparr>)"
    unfolding a [symmetric] b [symmetric]
    by (rule process_chunks_accumulates) simp_all
  have n: "(0 :: u64) + 116 = 116" "(116 :: u64) + 38 = 154" by simp_all
  from th show ?thesis unfolding n by blast
qed

text \<open>
  C3. The predictors return the chunked result plus the bias. For every pair of arrays and
  every bias, \<^verbatim>\<open>logistic_predict_large_dataset\<close> returns what the chunked engine leaves
  in a fresh accumulator plus the sign-extended bias, and \<^verbatim>\<open>logistic_predict_raw\<close> returns
  the single-chunk result plus the bias. With the inputs \<open>1..8\<close>, all-ones weights and bias
  \<open>1000\<close> the large-dataset predictor returns \<open>36 + 1000 = 1036\<close> (on the accelerator of the
  spec, \<open>logistic_result_hw\<close>). The bound on \<open>data_size\<close> is that of a 32-bit \<^verbatim>\<open>size_t\<close>: it
  keeps the chunk count, converted to \<^verbatim>\<open>int\<close>, from reading as negative.
\<close>

theorem predict_adds_bias:
  assumes "data_size < 2 ^ 32"
  shows "logistic_predict_large_dataset hw (Some inputs) (Some weights) data_size bias s
           = (the (fst (snd (logistic_process_chunks hw (Some inputs) (Some weights) data_size
                               (Some 0) s))) + scast bias,
              snd (snd (logistic_process_chunks hw (Some inputs) (Some weights) data_size
                          (Some 0) s)))
       \<and> logistic_predict_raw hw (Some inputs) (Some weights) bias s
           = (fst (logistic_compute_dot_product hw (Some inputs) (Some weights) s) + bias,
              snd (logistic_compute_dot_product hw (Some inputs) (Some weights) s))
       \<and> fst (logistic_predict_large_dataset logistic_result_hw (Some [1, 2, 3, 4, 5, 6, 7, 8])
                (Some [1, 1, 1, 1, 1, 1, 1, 1]) 8 1000 s) = 1036"
proof -
  have nonneg: "\<not> fst (logistic_process_chunks hw' (Some xs) (Some ws) n (Some 0) s) < 0"
    if "n < 2 ^ 32" for hw' xs ws n
    using process_chunks_count [of hw' xs ws n 0 s] int_of_size_nonneg [OF chunks_small [OF that]]
    by simp
  have large: "logistic_predict_large_dataset hw' (Some xs) (Some ws) n bias s
           = (the (fst (snd (logistic_process_chunks hw' (Some xs) (Some ws) n (Some 0) s)))
                + scast bias,
              snd (snd (logistic_process_chunks hw' (Some xs) (Some ws) n (Some 0) s)))"
    if "n < 2 ^ 32" for hw' xs ws n bias
    using nonneg [OF that, of hw' xs ws]
    by (simp add: logistic_predict_large_dataset_def case_prod_beta)
  have raw: "logistic_predict_raw hw (Some inputs) (Some weights) bias s
           = (fst (logistic_compute_dot_product hw (Some inputs) (Some weights) s) + bias,
              snd (logistic_compute_dot_product hw (Some inputs) (Some weights) s))"
    by (simp add: logistic_predict_raw_def case_prod_beta)
  have ct: "chunk_total logistic_result_hw [1, 2, 3, 4, 5, 6, 7, 8] [1, 1, 1, 1, 1, 1, 1, 1] 8 = 36"
    by code_simp
  have "fst (snd (logistic_process_chunks logistic_result_hw (Some [1, 2, 3, 4, 5, 6, 7, 8])
                (Some [1, 1, 1, 1, 1, 1, 1, 1]) 8 (Some 0) s)) = Some (0 + 36)"
    unfolding ct [symmetric] by (rule process_chunks_acc) simp_all
  then have ex: "fst (logistic_predict_large_dataset logistic_result_hw
                (Some [1, 2, 3, 4, 5, 6, 7, 8]) (Some [1, 1, 1, 1, 1, 1, 1, 1]) 8 1000 s) = 1036"
    by (simp add: large)
  from large [OF assms] raw ex show ?thesis by blast
qed

theorem predict_adds_bias_witness:
  "logistic_predict_large_dataset logistic_result_hw
       (Some [1, 2, 3, 4, 5, 6, 7, 8, 9, 10]) (Some [2, 2, 2, 2, 2, 2, 2, 2, 2, 2]) 10 (- 10)
       \<lparr>logistic_input = [], logistic_weight = [], result_reads = 0\<rparr>
     = (100, \<lparr>logistic_input = [9, 10, 0, 0, 0, 0, 0, 0],
              logistic_weight = [2, 2, 0, 0, 0, 0, 0, 0], result_reads = 2\<rparr>)"
proof -
  have eval: "logistic_process_chunks logistic_result_hw
       (Some [1, 2, 3, 4, 5, 6, 7, 8, 9, 10]) (Some [2, 2, 2, 2, 2, 2, 2, 2, 2, 2]) 10 (Some 0)
       \<lparr>logistic_input = [], logistic_weight = [], result_reads = 0\<rparr>
     = (2, Some 110, \<lparr>logistic_input = [9, 10, 0, 0, 0, 0, 0, 0],
              logistic_weight = [2, 2, 0, 0, 0, 0, 0, 0], result_reads = 2\<rparr>)"
    by code_simp
  have b: "(110 :: i64) + scast (- 10 :: i32) = 100" by simp
  have "(10 :: nat) < 2 ^ 32" by simp
  from predict_adds_bias [OF this, of logistic_result_hw
      "[1, 2, 3, 4, 5, 6, 7, 8, 9, 10]" "[2, 2, 2, 2, 2, 2, 2, 2, 2, 2]" "- 10"
      "\<lparr>logistic_input = [], logistic_weight = [], result_reads = 0\<rparr>"]
  show ?thesis unfolding eval by (simp add: b)
qed

text \<open>
  C9. With a \<^verbatim>\<open>NULL\<close> \<open>inputs\<close> or \<open>weights\<close>, \<^verbatim>\<open>logistic_compute_dot_product\<close> returns \<open>0\<close>
  and \<^verbatim>\<open>logistic_predict_large_dataset\<close> returns \<open>0\<close>, whatever the bias, and neither
  touches the registers. The value does not tell the caller so: the predictor also
  returns \<open>0\<close> for the legitimate call on no elements with bias \<open>0\<close>, and a legitimate
  single-chunk call returns whatever the unit shows, \<open>0\<close> included.
\<close>

theorem null_pointer_returns_zero:
  "logistic_compute_dot_product hw None weights s = (0, s)
   \<and> logistic_compute_dot_product hw inputs None s = (0, s)
   \<and> logistic_predict_large_dataset hw None weights data_size bias s = (0, s)
   \<and> logistic_predict_large_dataset hw inputs None data_size bias s = (0, s)
   \<and> logistic_predict_large_dataset hw (Some xs) (Some ws) 0 0 s = (0, s)
   \<and> fst (logistic_compute_dot_product hw (Some xs) (Some ws) s) = hw (head8 xs) (head8 ws)"
  by (simp add: logistic_compute_dot_product_def logistic_predict_large_dataset_def
      logistic_process_chunks_def full_chunks_stop LOGISTIC_INPUT_SIZE_def int_of_size_def
      logistic_get_result_def logistic_set_inputs_direct_def logistic_set_weights_direct_def
      head8_def)

theorem null_pointer_returns_zero_witness:
  "logistic_predict_large_dataset logistic_result_hw None (Some [1, 2, 3]) 3 1000
       \<lparr>logistic_input = [], logistic_weight = [], result_reads = 0\<rparr>
     = (0, \<lparr>logistic_input = [], logistic_weight = [], result_reads = 0\<rparr>)
   \<and> logistic_compute_dot_product logistic_result_hw (Some [1, 2, 3, 4, 5, 6, 7, 8]) None
       \<lparr>logistic_input = [], logistic_weight = [], result_reads = 0\<rparr>
     = (0, \<lparr>logistic_input = [], logistic_weight = [], result_reads = 0\<rparr>)
   \<and> fst (logistic_compute_dot_product logistic_result_hw (Some [0, 0, 0, 0, 0, 0, 0, 0])
            (Some [1, 1, 1, 1, 1, 1, 1, 1])
            \<lparr>logistic_input = [], logistic_weight = [], result_reads = 0\<rparr>) = 0"
proof -
  have z: "logistic_result_hw (head8 [0, 0, 0, 0, 0, 0, 0, 0]) (head8 [1, 1, 1, 1, 1, 1, 1, 1]) = 0"
    by code_simp
  from null_pointer_returns_zero [of logistic_result_hw "Some [1, 2, 3]"
      "\<lparr>logistic_input = [], logistic_weight = [], result_reads = 0\<rparr>"
      "Some [1, 2, 3, 4, 5, 6, 7, 8]" 3 1000 "[0, 0, 0, 0, 0, 0, 0, 0]" "[1, 1, 1, 1, 1, 1, 1, 1]"]
  show ?thesis unfolding z by blast
qed

text \<open>
  C2. For \<open>data_size \<le> 300\<close> the chunked engines use the accelerator exactly
  \<open>\<lceil>data_size / LaneWidth\<rceil>\<close> times, counted in reads of the result register:
  \<^verbatim>\<open>logistic_process_chunks\<close> (eight lanes) returns that number and makes that many
  reads, and \<^verbatim>\<open>dot_product_accel_dot_product\<close>, built with the unit and \<open>8\<close> or \<open>64\<close> lanes,
  makes that many reads. For \<open>data_size = 0\<close> nothing is invoked.
\<close>

theorem chunk_count_is_ceiling:
  assumes "data_size \<le> 300" and "L = 8 \<or> L = 64"
  shows "fst (logistic_process_chunks hw (Some inputs) (Some weights) data_size (Some acc) s)
           = \<lceil>real data_size / real LOGISTIC_INPUT_SIZE\<rceil>
       \<and> result_reads (snd (snd (logistic_process_chunks hw (Some inputs) (Some weights)
                                    data_size (Some acc) s)))
           = result_reads s + nat \<lceil>real data_size / real LOGISTIC_INPUT_SIZE\<rceil>
       \<and> dot_product_result_reads
             (snd (dot_product_accel_dot_product True L hw' data_size (Some xs) (Some ws) t))
           = dot_product_result_reads t + nat \<lceil>real data_size / real L\<rceil>
       \<and> logistic_process_chunks hw (Some inputs) (Some weights) 0 (Some acc) s
           = (0, Some acc, s)
       \<and> dot_product_result_reads
             (snd (dot_product_accel_dot_product True L hw' 0 (Some xs) (Some ws) t))
           = dot_product_result_reads t"
proof -
  have small: "(data_size + 7) div LOGISTIC_INPUT_SIZE < 2 ^ 31"
    using assms(1) by (simp add: LOGISTIC_INPUT_SIZE_def)
  have c8: "nat \<lceil>real data_size / real LOGISTIC_INPUT_SIZE\<rceil> = (data_size + 7) div LOGISTIC_INPUT_SIZE"
    by (simp add: LOGISTIC_INPUT_SIZE_def ceil8)
  have nonneg: "0 \<le> \<lceil>real data_size / real LOGISTIC_INPUT_SIZE\<rceil>"
    by (simp add: LOGISTIC_INPUT_SIZE_def)
  have a: "fst (logistic_process_chunks hw (Some inputs) (Some weights) data_size (Some acc) s)
           = \<lceil>real data_size / real LOGISTIC_INPUT_SIZE\<rceil>"
  proof -
    have "int (nat \<lceil>real data_size / real LOGISTIC_INPUT_SIZE\<rceil>)
        = \<lceil>real data_size / real LOGISTIC_INPUT_SIZE\<rceil>"
      using nonneg by (rule nat_0_le)
    then have "int ((data_size + 7) div LOGISTIC_INPUT_SIZE)
        = \<lceil>real data_size / real LOGISTIC_INPUT_SIZE\<rceil>"
      by (simp only: c8)
    then show ?thesis
      using process_chunks_count [of hw inputs weights data_size acc s]
      by (simp only: int_of_size_small [OF small])
  qed
  have b: "result_reads (snd (snd (logistic_process_chunks hw (Some inputs) (Some weights)
                                    data_size (Some acc) s)))
           = result_reads s + nat \<lceil>real data_size / real LOGISTIC_INPUT_SIZE\<rceil>"
    using process_chunks_count [of hw inputs weights data_size acc s] by (simp add: c8)
  have L: "0 < L" using assms(2) by auto
  have cL: "nat \<lceil>real data_size / real L\<rceil> = (data_size + L - 1) div L"
  proof (cases "L = 8")
    case True
    then show ?thesis by (simp add: ceil8)
  next
    case False
    with assms(2) have "L = 64" by simp
    then show ?thesis by (simp add: ceil64)
  qed
  have c: "dot_product_result_reads
             (snd (dot_product_accel_dot_product True L hw' data_size (Some xs) (Some ws) t))
           = dot_product_result_reads t + nat \<lceil>real data_size / real L\<rceil>"
    by (simp add: dp_reads [OF L] cL)
  have d: "logistic_process_chunks hw (Some inputs) (Some weights) 0 (Some acc) s
           = (0, Some acc, s)"
    by (simp add: logistic_process_chunks_def full_chunks_stop LOGISTIC_INPUT_SIZE_def
        int_of_size_def)
  have e: "dot_product_result_reads
             (snd (dot_product_accel_dot_product True L hw' 0 (Some xs) (Some ws) t))
           = dot_product_result_reads t"
    using L by (simp add: dp_reads [OF L])
  from a b c d e show ?thesis by blast
qed

theorem chunk_count_is_ceiling_witness:
  "fst (logistic_process_chunks logistic_result_hw (Some (replicate 100 1)) (Some (replicate 100 1))
          100 (Some 0) \<lparr>logistic_input = [], logistic_weight = [], result_reads = 0\<rparr>) = 13
   \<and> result_reads (snd (snd (logistic_process_chunks logistic_result_hw (Some (replicate 100 1))
          (Some (replicate 100 1)) 100 (Some 0)
          \<lparr>logistic_input = [], logistic_weight = [], result_reads = 0\<rparr>))) = 13
   \<and> dot_product_result_reads (snd (dot_product_accel_dot_product True 64 dot_product_result_hw
          100 (Some (replicate 100 1)) (Some (replicate 100 1))
          \<lparr>dot_product_input = [], dot_product_weight = [], dot_product_result_reads = 0\<rparr>)) = 2"
proof -
  have "(100 :: nat) \<le> 300" "(64 :: nat) = 8 \<or> (64 :: nat) = 64" by simp_all
  from chunk_count_is_ceiling [OF this, of logistic_result_hw "replicate 100 1" "replicate 100 1" 0
      "\<lparr>logistic_input = [], logistic_weight = [], result_reads = 0\<rparr>"
      dot_product_result_hw "replicate 100 1" "replicate 100 1"
      "\<lparr>dot_product_input = [], dot_product_weight = [], dot_product_result_reads = 0\<rparr>"]
  show ?thesis by (simp add: LOGISTIC_INPUT_SIZE_def)
qed

text \<open>
  C7. For \<open>F \<le> 30\<close> fractional bits, \<^verbatim>\<open>double_to_fixed\<close> returns the low 32 bits of
  \<open>y * 2^F\<close> truncated towards zero (it never rounds and checks no range);
  \<^verbatim>\<open>fixed_to_double\<close> divides by \<open>2^F\<close>; and for \<open>x\<close> with \<open>\<bar>x * 2^F\<bar> < 2^31\<close> the encoding is
  the truncation itself and the round trip differs from \<open>x\<close> by less than \<open>2^-F\<close>.
\<close>

theorem codec_truncates:
  assumes "F \<le> 30" and "\<bar>x * 2 ^ F\<bar> < 2 ^ 31"
  shows "double_to_fixed y F = word_of_int (if 0 \<le> y then \<lfloor>y * 2 ^ F\<rfloor> else \<lceil>y * 2 ^ F\<rceil>)
       \<and> sint (double_to_fixed x F) = (if 0 \<le> x then \<lfloor>x * 2 ^ F\<rfloor> else \<lceil>x * 2 ^ F\<rceil>)
       \<and> fixed_to_double v F = real_of_int (sint v) / 2 ^ F
       \<and> \<bar>fixed_to_double (double_to_fixed x F) F - x\<bar> < 1 / 2 ^ F"
proof -
  have sh: "real_of_int (one_shl F) = 2 ^ F" by (simp add: one_shl_pow [OF assms(1)])
  have sgn: "0 \<le> z * 2 ^ F \<longleftrightarrow> 0 \<le> z" for z :: real
  proof -
    have "(0 :: real) < 2 ^ F" by simp
    then show ?thesis by (simp only: zero_le_mult_iff) linarith
  qed
  have enc: "double_to_fixed z F = word_of_int (if 0 \<le> z then \<lfloor>z * 2 ^ F\<rfloor> else \<lceil>z * 2 ^ F\<rceil>)"
    for z
    by (simp add: double_to_fixed_def sh c_trunc_def sgn)
  have ct: "c_trunc (x * 2 ^ F) = (if 0 \<le> x then \<lfloor>x * 2 ^ F\<rfloor> else \<lceil>x * 2 ^ F\<rceil>)"
    by (simp add: c_trunc_def sgn)
  have s: "sint (double_to_fixed x F) = c_trunc (x * 2 ^ F)"
    using c_trunc_range [OF assms(2)]
    by (simp add: double_to_fixed_def sh sint_word_of_int_range)
  have dec: "fixed_to_double v F = real_of_int (sint v) / 2 ^ F"
    by (simp add: fixed_to_double_def sh)
  have "fixed_to_double (double_to_fixed x F) F - x
      = (real_of_int (c_trunc (x * 2 ^ F)) - x * 2 ^ F) / 2 ^ F"
    by (simp add: fixed_to_double_def sh s diff_divide_distrib)
  then have "\<bar>fixed_to_double (double_to_fixed x F) F - x\<bar>
      = \<bar>real_of_int (c_trunc (x * 2 ^ F)) - x * 2 ^ F\<bar> / 2 ^ F"
    by (simp add: abs_divide)
  also have "\<dots> < 1 / 2 ^ F"
    using c_trunc_close [of "x * 2 ^ F"] by (simp add: divide_strict_right_mono)
  finally have rt: "\<bar>fixed_to_double (double_to_fixed x F) F - x\<bar> < 1 / 2 ^ F" .
  from enc [of y] s ct dec rt show ?thesis by simp
qed

theorem codec_truncates_witness:
  "double_to_fixed (- 3 / 2) 1 = - 3
   \<and> sint (double_to_fixed (- 5 / 4) 1) = - 2
   \<and> fixed_to_double (- 2) 1 = - 1
   \<and> \<bar>fixed_to_double (double_to_fixed (- 5 / 4) 1) 1 - (- 5 / 4)\<bar> < 1 / 2"
proof -
  have "(1 :: nat) \<le> 30" "\<bar>(- 5 / 4 :: real) * 2 ^ 1\<bar> < 2 ^ 31" by simp_all
  from codec_truncates [OF this, of "- 3 / 2" "- 2"] show ?thesis by simp
qed

text \<open>
  C5. \<^verbatim>\<open>dot_product_accel_set_inputs\<close> (in the build with the unit) leaves \<open>L\<close> lanes: lane
  \<open>i\<close> holds \<open>vals[i]\<close>, as its Q16.16 word, for \<open>i < count\<close> and zero from \<open>count\<close> on; a
  count above \<open>L\<close> acts as \<open>L\<close>, with no error (the function returns nothing); the weight
  bank is untouched. \<^verbatim>\<open>dot_product_accel_set_weights\<close> does the same to the weight bank.
  The hypothesis says that the array holds the elements the call reads.
\<close>

theorem set_inputs_writes_lanes:
  assumes "nat (min count (int L)) \<le> length vals"
  shows "length (dot_product_input (dot_product_accel_set_inputs True L (Some vals) count s)) = L
       \<and> (\<forall>i<L. dot_product_input (dot_product_accel_set_inputs True L (Some vals) count s) ! i
              = (if int i < count then double_to_fixed (vals ! i) FIXED_POINT_FRACTIONAL_BITS
                 else 0))
       \<and> (int L < count \<longrightarrow>
            dot_product_accel_set_inputs True L (Some vals) count s
              = dot_product_accel_set_inputs True L (Some vals) (int L) s)
       \<and> dot_product_weight (dot_product_accel_set_inputs True L (Some vals) count s)
           = dot_product_weight s
       \<and> length (dot_product_weight (dot_product_accel_set_weights True L (Some vals) count s)) = L
       \<and> (\<forall>i<L. dot_product_weight (dot_product_accel_set_weights True L (Some vals) count s) ! i
              = (if int i < count then double_to_fixed (vals ! i) FIXED_POINT_FRACTIONAL_BITS
                 else 0))
       \<and> (int L < count \<longrightarrow>
            dot_product_accel_set_weights True L (Some vals) count s
              = dot_product_accel_set_weights True L (Some vals) (int L) s)
       \<and> dot_product_input (dot_product_accel_set_weights True L (Some vals) count s)
           = dot_product_input s"
proof -
  have clamp: "fixed_lanes L vals count = fixed_lanes L vals (int L)" if "int L < count"
    unfolding fixed_lanes_def using that by (intro map_cong) auto
  show ?thesis
    by (auto simp: set_inputs_bank set_weights_bank fixed_lanes_def clamp [unfolded fixed_lanes_def])
qed

theorem set_inputs_writes_lanes_witness:
  "dot_product_input (dot_product_accel_set_inputs True 4 (Some [1, 1 / 2, - 3, 7, 9]) 2
       \<lparr>dot_product_input = [5, 5, 5, 5], dot_product_weight = [6, 6, 6, 6],
        dot_product_result_reads = 0\<rparr>) ! 1 = 32768
   \<and> dot_product_input (dot_product_accel_set_inputs True 4 (Some [1, 1 / 2, - 3, 7, 9]) 2
       \<lparr>dot_product_input = [5, 5, 5, 5], dot_product_weight = [6, 6, 6, 6],
        dot_product_result_reads = 0\<rparr>) ! 2 = 0
   \<and> dot_product_weight (dot_product_accel_set_weights True 4 (Some [1, 1 / 2, - 3, 7, 9]) 2
       \<lparr>dot_product_input = [5, 5, 5, 5], dot_product_weight = [6, 6, 6, 6],
        dot_product_result_reads = 0\<rparr>) ! 0 = 65536"
proof -
  have f: "double_to_fixed (1 / 2) FIXED_POINT_FRACTIONAL_BITS = 32768"
    "double_to_fixed 1 FIXED_POINT_FRACTIONAL_BITS = 65536"
    by (simp_all add: double_to_fixed_def FIXED_POINT_FRACTIONAL_BITS_def one_shl_pow c_trunc_def)
  have "nat (min 2 (int 4)) \<le> length [1, 1 / 2, - 3, 7, 9 :: real]" by simp
  from set_inputs_writes_lanes [OF this, of
      "\<lparr>dot_product_input = [5, 5, 5, 5], dot_product_weight = [6, 6, 6, 6],
        dot_product_result_reads = 0\<rparr>"]
  show ?thesis by (simp add: f)
qed

text \<open>
  C6, as the code has it. \<^verbatim>\<open>logistic_process_chunks\<close> and
  \<^verbatim>\<open>logistic_process_chunks_float\<close> answer a \<^verbatim>\<open>NULL\<close> \<open>inputs\<close> or \<open>weights\<close> with \<open>-1\<close>,
  leaving the accumulator and the registers as they were, and a call with valid
  pointers (and fewer than \<open>2^32\<close> elements, a non-zero scale) returns a chunk count, which
  is never negative: the error is distinguishable.
\<close>

theorem null_pointer_is_an_error:
  assumes "inputs = None \<or> weights = None" and "finputs = None \<or> fweights = None"
    and "data_size < 2 ^ 32" and "scale_factor \<noteq> 0"
  shows "logistic_process_chunks hw inputs weights n accumulator s = (- 1, accumulator, s)
       \<and> logistic_process_chunks_float hw f finputs fweights n sc accumulator s
           = (- 1, accumulator, s)
       \<and> 0 \<le> fst (logistic_process_chunks hw (Some xs) (Some ws) data_size (Some acc) s)
       \<and> 0 \<le> fst (logistic_process_chunks_float hw f (Some fxs) (Some fws) data_size
                     scale_factor (Some acc) s)"
proof -
  have "0 \<le> int_of_size ((data_size + 7) div LOGISTIC_INPUT_SIZE)"
    by (rule int_of_size_nonneg [OF chunks_small [OF assms(3)]])
  then show ?thesis
    using assms(1,2)
    by (auto simp: logistic_process_chunks_def [of hw inputs] logistic_process_chunks_def [of hw _ weights]
        logistic_process_chunks_float_def [of hw f finputs]
        logistic_process_chunks_float_def [of hw f _ fweights]
        process_chunks_count process_chunks_float_count [OF assms(4)])
qed

theorem null_pointer_is_an_error_witness:
  "logistic_process_chunks logistic_result_hw None (Some [1, 2, 3]) 3 (Some 7)
       \<lparr>logistic_input = [], logistic_weight = [], result_reads = 0\<rparr>
     = (- 1, Some 7, \<lparr>logistic_input = [], logistic_weight = [], result_reads = 0\<rparr>)
   \<and> logistic_process_chunks_float logistic_result_hw (\<lambda>(v :: real) sc. word_of_int (c_trunc (v * real (unat sc))))
       (Some [1, 2, 3]) None 3 1000 (Some 7)
       \<lparr>logistic_input = [], logistic_weight = [], result_reads = 0\<rparr>
     = (- 1, Some 7, \<lparr>logistic_input = [], logistic_weight = [], result_reads = 0\<rparr>)
   \<and> fst (logistic_process_chunks logistic_result_hw (Some [1, 2, 3]) (Some [1, 2, 3]) 3 (Some 7)
       \<lparr>logistic_input = [], logistic_weight = [], result_reads = 0\<rparr>) = 1"
proof -
  have e: "fst (logistic_process_chunks logistic_result_hw (Some [1, 2, 3]) (Some [1, 2, 3]) 3 (Some 7)
       \<lparr>logistic_input = [], logistic_weight = [], result_reads = 0\<rparr>) = 1"
    by code_simp
  have "(None :: u32 list option) = None \<or> Some [1, 2, 3 :: u32] = None"
    "Some [1, 2, 3 :: real] = None \<or> (None :: real list option) = None"
    "(3 :: nat) < 2 ^ 32" "(1000 :: u32) \<noteq> 0"
    by simp_all
  from null_pointer_is_an_error [OF this, of logistic_result_hw 3 "Some 7"
      "\<lparr>logistic_input = [], logistic_weight = [], result_reads = 0\<rparr>"
      "\<lambda>(v :: real) sc. word_of_int (c_trunc (v * real (unat sc)))" 1000 "[1, 2, 3]" "[1, 2, 3]" 7 "[1, 2, 3]" "[1, 2, 3]"]
  show ?thesis using e by blast
qed

text \<open>
  C6 does not hold of \<^verbatim>\<open>dot_product_accel_dot_product\<close>: that engine checks no pointer
  and has no error result. Called with both pointers \<^verbatim>\<open>NULL\<close> and \<open>size = 0\<close> it returns
  \<open>0.0\<close>, exactly what it returns for two valid empty vectors.
\<close>

theorem dot_product_null_computes:
  "dot_product_accel_dot_product True 8 dot_product_result_hw 0 None None
       \<lparr>dot_product_input = [], dot_product_weight = [], dot_product_result_reads = 0\<rparr>
     = (0, \<lparr>dot_product_input = [], dot_product_weight = [], dot_product_result_reads = 0\<rparr>)
   \<and> dot_product_accel_dot_product True 8 dot_product_result_hw 0 (Some []) (Some [])
       \<lparr>dot_product_input = [], dot_product_weight = [], dot_product_result_reads = 0\<rparr>
     = (0, \<lparr>dot_product_input = [], dot_product_weight = [], dot_product_result_reads = 0\<rparr>)"
  by (simp add: dot_product_accel_dot_product_def dp_full_chunks_stop fixed64_to_double_def)

text \<open>
  C8, as the code has it. \<^verbatim>\<open>inference_accel_wait_done\<close> polls the status register until
  the done bit reads as set and then returns; it takes no timeout and reports nothing,
  and on a unit whose done bit never reads as set it never returns. The wait with a
  timeout is \<^verbatim>\<open>logistic_wait_done\<close> of the 64-lane handshake driver, for an initialised
  context: it returns \<^verbatim>\<open>LOGISTIC_OK\<close> when done is seen within the first \<open>timeout_ms + 1\<close>
  polls, and \<^verbatim>\<open>LOGISTIC_ERROR_TIMEOUT\<close> after exactly \<open>timeout_ms + 1\<close> polls when it is
  not (for \<open>timeout_ms < 2^32 - 1\<close>); with \<open>timeout_ms = 0\<close> on a unit that is not done it
  returns \<^verbatim>\<open>LOGISTIC_ERROR_TIMEOUT\<close> after a single poll.
\<close>

theorem wait_done_behaviour:
  assumes "initialized c"
  shows "((\<forall>j<n. status (k + j) AND INFERENCE_ACCEL_STATUS_DONE = 0) \<longrightarrow>
          status (k + n) AND INFERENCE_ACCEL_STATUS_DONE \<noteq> 0 \<longrightarrow>
          inference_accel_wait_done status k = Some (Suc (k + n)))
       \<and> ((\<forall>j. status j AND INFERENCE_ACCEL_STATUS_DONE = 0) \<longrightarrow>
          inference_accel_wait_done status k = None)
       \<and> ((\<forall>j<n. done_reg (done_reads st + j) AND 1 = 0) \<longrightarrow>
          done_reg (done_reads st + n) AND 1 \<noteq> 0 \<longrightarrow> n \<le> unat (timeout_ms c) \<longrightarrow>
          logistic_wait_done done_reg (Some c) st =
            Some (LOGISTIC_OK,
                  st\<lparr>system_time_ms := system_time_ms st + 1 + of_nat n,
                     done_reads := done_reads st + n + 1\<rparr>))
       \<and> ((\<forall>j\<le>unat (timeout_ms c). done_reg (done_reads st + j) AND 1 = 0) \<longrightarrow>
          unat (timeout_ms c) < 2 ^ 32 - 1 \<longrightarrow>
          logistic_wait_done done_reg (Some c) st =
            Some (LOGISTIC_ERROR_TIMEOUT,
                  st\<lparr>system_time_ms := system_time_ms st + 2 + timeout_ms c,
                     done_reads := done_reads st + unat (timeout_ms c) + 1\<rparr>))
       \<and> (timeout_ms c = 0 \<longrightarrow> done_reg (done_reads st) AND 1 = 0 \<longrightarrow>
          logistic_wait_done done_reg (Some c) st =
            Some (LOGISTIC_ERROR_TIMEOUT,
                  st\<lparr>system_time_ms := system_time_ms st + 2,
                     done_reads := done_reads st + 1\<rparr>))"
proof -
  let ?st1 = "st\<lparr>system_time_ms := system_time_ms st + 1\<rparr>"
  have e1: "unat (system_time_ms ?st1 - system_time_ms st) = 1" by simp
  have a: "inference_accel_wait_done status k = Some (Suc (k + n))"
    if "\<forall>j<n. status (k + j) AND INFERENCE_ACCEL_STATUS_DONE = 0"
      "status (k + n) AND INFERENCE_ACCEL_STATUS_DONE \<noteq> 0"
    using that by (intro wait_done_returns) simp_all
  have b: "inference_accel_wait_done status k = None"
    if "\<forall>j. status j AND INFERENCE_ACCEL_STATUS_DONE = 0"
    using that by (intro wait_done_never) simp
  have ok: "logistic_wait_done done_reg (Some c) st =
            Some (LOGISTIC_OK,
                  st\<lparr>system_time_ms := system_time_ms st + 1 + of_nat n,
                     done_reads := done_reads st + n + 1\<rparr>)"
    if "\<forall>j<n. done_reg (done_reads st + j) AND 1 = 0"
      "done_reg (done_reads st + n) AND 1 \<noteq> 0" "n \<le> unat (timeout_ms c)"
  proof -
    have "logistic_wait_loop done_reg (Some c) (system_time_ms st) ?st1 =
       Some (LOGISTIC_OK,
           ?st1\<lparr>system_time_ms := system_time_ms ?st1 + of_nat n,
              done_reads := done_reads ?st1 + n + 1\<rparr>)"
      using that e1 by (intro wait_loop_ok [OF assms]) simp_all
    then show ?thesis by (simp add: wait_done_start [OF assms])
  qed
  have to: "logistic_wait_done done_reg (Some c) st =
            Some (LOGISTIC_ERROR_TIMEOUT,
                  st\<lparr>system_time_ms := system_time_ms st + 2 + timeout_ms c,
                     done_reads := done_reads st + unat (timeout_ms c) + 1\<rparr>)"
    if "\<forall>j\<le>unat (timeout_ms c). done_reg (done_reads st + j) AND 1 = 0"
      "unat (timeout_ms c) < 2 ^ 32 - 1"
  proof -
    have "logistic_wait_loop done_reg (Some c) (system_time_ms st) ?st1 =
       Some (LOGISTIC_ERROR_TIMEOUT,
           ?st1\<lparr>system_time_ms := system_time_ms ?st1 + of_nat (unat (timeout_ms c)) + 1,
              done_reads := done_reads ?st1 + unat (timeout_ms c) + 1\<rparr>)"
      using that e1 by (intro wait_loop_timeout [OF assms]) simp_all
    then show ?thesis by (simp add: wait_done_start [OF assms] add.commute add.left_commute)
  qed
  have z: "logistic_wait_done done_reg (Some c) st =
            Some (LOGISTIC_ERROR_TIMEOUT,
                  st\<lparr>system_time_ms := system_time_ms st + 2,
                     done_reads := done_reads st + 1\<rparr>)"
    if "timeout_ms c = 0" "done_reg (done_reads st) AND 1 = 0"
    using to that by simp
  from a b ok to z show ?thesis by blast
qed

theorem wait_done_behaviour_witness:
  "inference_accel_wait_done (\<lambda>k. if k < 3 then 1 else 2) 0 = Some 4
   \<and> logistic_wait_done (\<lambda>k. 0) (Some \<lparr>initialized = True, timeout_ms = 0\<rparr>)
        \<lparr>system_time_ms = 7, done_reads = 0\<rparr>
      = Some (LOGISTIC_ERROR_TIMEOUT, \<lparr>system_time_ms = 9, done_reads = 1\<rparr>)
   \<and> logistic_wait_done (\<lambda>k. if k < 3 then 0 else 1) (Some \<lparr>initialized = True, timeout_ms = 5\<rparr>)
        \<lparr>system_time_ms = 7, done_reads = 0\<rparr>
      = Some (LOGISTIC_OK, \<lparr>system_time_ms = 11, done_reads = 4\<rparr>)"
proof -
  have i0: "initialized \<lparr>initialized = True, timeout_ms = 0\<rparr>"
    and i5: "initialized \<lparr>initialized = True, timeout_ms = 5\<rparr>" by simp_all
  have a: "inference_accel_wait_done (\<lambda>k. if k < 3 then 1 else 2) 0 = Some 4"
    using wait_done_behaviour [OF i0, of 3 "\<lambda>k. if k < 3 then 1 else 2" 0]
    by (simp add: INFERENCE_ACCEL_STATUS_DONE_def)
  have b: "logistic_wait_done (\<lambda>k. 0) (Some \<lparr>initialized = True, timeout_ms = 0\<rparr>)
        \<lparr>system_time_ms = 7, done_reads = 0\<rparr>
      = Some (LOGISTIC_ERROR_TIMEOUT, \<lparr>system_time_ms = 9, done_reads = 1\<rparr>)"
    using wait_done_behaviour [OF i0, of 0 "\<lambda>k. 0" 0 "\<lambda>k. 0" "\<lparr>system_time_ms = 7, done_reads = 0\<rparr>"]
    by simp
  have c: "logistic_wait_done (\<lambda>k. if k < 3 then 0 else 1) (Some \<lparr>initialized = True, timeout_ms = 5\<rparr>)
        \<lparr>system_time_ms = 7, done_reads = 0\<rparr>
      = Some (LOGISTIC_OK, \<lparr>system_time_ms = 11, done_reads = 4\<rparr>)"
    using wait_done_behaviour [OF i5, of 3 "\<lambda>k. 0" 0 "\<lambda>k. if k < 3 then 0 else 1"
        "\<lparr>system_time_ms = 7, done_reads = 0\<rparr>"]
    by simp
  from a b c show ?thesis by blast
qed

text \<open>
  C8 does not hold of \<^verbatim>\<open>inference_accel_wait_done\<close>, the function the claim cites: on a
  unit whose status always reads \<open>0\<close> the loop never returns, and there is no timeout to
  pass.
\<close>

theorem wait_done_spins_forever:
  "inference_accel_wait_done (\<lambda>k. 0) 0 = None"
  by (rule wait_done_never) simp

text \<open>
  C1, as the code has it. The two builds of \<^verbatim>\<open>dot_product_accel_compute_chunk\<close> return
  the same \<^verbatim>\<open>int32_t\<close> when every input and weight of the chunk is an exact Q16.16 value
  \<open>a / 2^16\<close> (with \<open>\<bar>a\<bar> < 2^26\<close>, where the double product is exact),
  \<open>0 \<le> chunk_size \<le> L < 2^31\<close>, and the truncated products \<open>a * b / 2^16\<close> of the chunk add
  up to less than \<open>2^31\<close> in absolute value, so that no conversion to \<^verbatim>\<open>int32_t\<close> and no
  addition of the fallback leaves the range of \<^verbatim>\<open>int32_t\<close>: both then return the sum of
  the products \<open>a * b / 2^16\<close> truncated towards zero, as a signed integer. The unit is
  the one modelled from the spec, \<open>dot_product_result_hw\<close>.
\<close>

theorem paths_agree_on_q16_operands:
  assumes "length as = n" and "length bs = n" and "n \<le> L" and "L < 2 ^ 31"
    and "\<forall>a\<in>set as. \<bar>a\<bar> < 2 ^ 26" and "\<forall>b\<in>set bs. \<bar>b\<bar> < 2 ^ 26"
    and "(\<Sum>i\<leftarrow>[0..<n]. \<bar>c_trunc (real_of_int (as ! i * bs ! i) / 65536)\<bar>) < 2 ^ 31"
  shows "fst (dot_product_accel_compute_chunk True L dot_product_result_hw
                (Some (map (\<lambda>a. real_of_int a / 65536) as))
                (Some (map (\<lambda>b. real_of_int b / 65536) bs)) (int n) s)
       = fst (dot_product_accel_compute_chunk False L dot_product_result_hw
                (Some (map (\<lambda>a. real_of_int a / 65536) as))
                (Some (map (\<lambda>b. real_of_int b / 65536) bs)) (int n) s)
       \<and> fst (dot_product_accel_compute_chunk False L dot_product_result_hw
                (Some (map (\<lambda>a. real_of_int a / 65536) as))
                (Some (map (\<lambda>b. real_of_int b / 65536) bs)) (int n) s)
       = (\<Sum>i\<leftarrow>[0..<n]. word_of_int (c_trunc (real_of_int (as ! i * bs ! i) / 65536)))
       \<and> sint (fst (dot_product_accel_compute_chunk False L dot_product_result_hw
                (Some (map (\<lambda>a. real_of_int a / 65536) as))
                (Some (map (\<lambda>b. real_of_int b / 65536) bs)) (int n) s))
       = (\<Sum>i\<leftarrow>[0..<n]. c_trunc (real_of_int (as ! i * bs ! i) / 65536))"
proof -
  let ?xs = "map (\<lambda>a. real_of_int a / 65536) as" and ?ws = "map (\<lambda>b. real_of_int b / 65536) bs"
  have range: "sint (word_of_int (as ! i) :: u32) = as ! i \<and> sint (word_of_int (bs ! i) :: u32) = bs ! i"
    if "i < n" for i
  proof -
    have "\<bar>as ! i\<bar> < 2 ^ 26" "\<bar>bs ! i\<bar> < 2 ^ 26"
      using assms that by (auto simp: Ball_def in_set_conv_nth)
    then have "- (2 ^ 31) \<le> as ! i \<and> as ! i < 2 ^ 31 \<and> - (2 ^ 31) \<le> bs ! i \<and> bs ! i < 2 ^ 31"
      by (simp add: abs_less_iff)
    then show ?thesis by (simp add: sint_word_of_int_range)
  qed
  have lanes_x: "fixed_lanes L ?xs (int n) = map (\<lambda>i. if i < n then word_of_int (as ! i) else 0) [0..<L]"
    unfolding fixed_lanes_def using assms(1)
    by (intro map_cong refl) (simp add: double_to_fixed_q16)
  have lanes_w: "fixed_lanes L ?ws (int n) = map (\<lambda>i. if i < n then word_of_int (bs ! i) else 0) [0..<L]"
    unfolding fixed_lanes_def using assms(2)
    by (intro map_cong refl) (simp add: double_to_fixed_q16)
  have "fst (dot_product_accel_compute_chunk True L dot_product_result_hw (Some ?xs) (Some ?ws) (int n) s)
      = (\<Sum>i\<leftarrow>[0..<n]. word_of_int (c_trunc (real_of_int
            (sint (word_of_int (as ! i) :: u32) * sint (word_of_int (bs ! i) :: u32)) / 65536)))"
    by (simp only: compute_chunk_hw fst_conv lanes_x lanes_w hw_split [OF assms(3)])
  also have "\<dots> = (\<Sum>i\<leftarrow>[0..<n]. word_of_int (c_trunc (real_of_int (as ! i * bs ! i) / 65536)))"
    by (intro arg_cong [where f = sum_list] map_cong refl) (simp add: range)
  finally have hw: "fst (dot_product_accel_compute_chunk True L dot_product_result_hw (Some ?xs)
        (Some ?ws) (int n) s)
      = (\<Sum>i\<leftarrow>[0..<n]. word_of_int (c_trunc (real_of_int (as ! i * bs ! i) / 65536)))" .
  have "fst (dot_product_accel_compute_chunk False L dot_product_result_hw (Some ?xs) (Some ?ws) (int n) s)
      = (\<Sum>i\<leftarrow>[0..<n]. double_to_fixed (?xs ! i * ?ws ! i) FIXED_POINT_FRACTIONAL_BITS)"
    by (simp add: compute_chunk_sw fold_add_sum_list)
  also have "\<dots> = (\<Sum>i\<leftarrow>[0..<n]. word_of_int (c_trunc (real_of_int (as ! i * bs ! i) / 65536)))"
  proof (intro arg_cong [where f = sum_list] map_cong refl)
    fix i assume "i \<in> set [0..<n]"
    then have "i < length as" "i < length bs" using assms(1,2) by simp_all
    then show "double_to_fixed (?xs ! i * ?ws ! i) FIXED_POINT_FRACTIONAL_BITS
        = word_of_int (c_trunc (real_of_int (as ! i * bs ! i) / 65536))"
      by (simp only: nth_map double_to_fixed_q16_product)
  qed
  finally have sw: "fst (dot_product_accel_compute_chunk False L dot_product_result_hw (Some ?xs)
        (Some ?ws) (int n) s)
      = (\<Sum>i\<leftarrow>[0..<n]. word_of_int (c_trunc (real_of_int (as ! i * bs ! i) / 65536)))" .
  have "sint (\<Sum>i\<leftarrow>[0..<n]. word_of_int (c_trunc (real_of_int (as ! i * bs ! i) / 65536)) :: i32)
      = (\<Sum>i\<leftarrow>[0..<n]. c_trunc (real_of_int (as ! i * bs ! i) / 65536))"
    using assms(7) by (rule sint32_sum)
  then have si: "sint (fst (dot_product_accel_compute_chunk False L dot_product_result_hw (Some ?xs)
        (Some ?ws) (int n) s))
      = (\<Sum>i\<leftarrow>[0..<n]. c_trunc (real_of_int (as ! i * bs ! i) / 65536))"
    by (simp only: sw)
  from hw sw si show ?thesis by (simp only:)
qed

theorem paths_agree_on_q16_operands_witness:
  "fst (dot_product_accel_compute_chunk True 8 dot_product_result_hw
          (Some [1 / 2, - 3 / 2]) (Some [1 / 2, 1]) 2
          \<lparr>dot_product_input = [], dot_product_weight = [], dot_product_result_reads = 0\<rparr>) = - 81920
   \<and> fst (dot_product_accel_compute_chunk False 8 dot_product_result_hw
          (Some [1 / 2, - 3 / 2]) (Some [1 / 2, 1]) 2
          \<lparr>dot_product_input = [], dot_product_weight = [], dot_product_result_reads = 0\<rparr>) = - 81920
   \<and> sint (fst (dot_product_accel_compute_chunk False 8 dot_product_result_hw
          (Some [1 / 2, - 3 / 2]) (Some [1 / 2, 1]) 2
          \<lparr>dot_product_input = [], dot_product_weight = [], dot_product_result_reads = 0\<rparr>)) = - 81920"
proof -
  have "length [32768, - 98304 :: int] = 2" "length [32768, 65536 :: int] = 2" "(2 :: nat) \<le> 8"
    "(8 :: nat) < 2 ^ 31"
    "\<forall>a\<in>set [32768, - 98304 :: int]. \<bar>a\<bar> < 2 ^ 26" "\<forall>b\<in>set [32768, 65536 :: int]. \<bar>b\<bar> < 2 ^ 26"
    "(\<Sum>i\<leftarrow>[0..<2]. \<bar>c_trunc (real_of_int ([32768, - 98304] ! i * [32768, 65536] ! i) / 65536)\<bar>)
       < 2 ^ 31"
    by (simp_all add: upt_rec [of 0] upt_rec [of 1] upt_rec [of "Suc 0"] c_trunc_def)
  from paths_agree_on_q16_operands [OF this,
      of "\<lparr>dot_product_input = [], dot_product_weight = [], dot_product_result_reads = 0\<rparr>"]
  show ?thesis by (simp add: upt_rec [of 0] upt_rec [of 1] upt_rec [of "Suc 0"] c_trunc_def)
qed

text \<open>
  C1 does not hold for every input: the fallback truncates the double product
  \<open>inputs[i] * weights[i]\<close> once, while the build with the unit truncates each operand to
  Q16.16 before the unit multiplies. For the input \<open>2^-17\<close> and the weight \<open>2\<close> (both exact
  doubles) the fallback returns \<open>1\<close> and the build with the unit returns \<open>0\<close>.
\<close>

theorem paths_differ_below_one_ulp:
  "fst (dot_product_accel_compute_chunk True 8 dot_product_result_hw (Some [1 / 131072]) (Some [2]) 1
          \<lparr>dot_product_input = [], dot_product_weight = [], dot_product_result_reads = 0\<rparr>) = 0
   \<and> fst (dot_product_accel_compute_chunk False 8 dot_product_result_hw (Some [1 / 131072]) (Some [2]) 1
          \<lparr>dot_product_input = [], dot_product_weight = [], dot_product_result_reads = 0\<rparr>) = 1"
proof -
  have f: "double_to_fixed (1 / 131072) FIXED_POINT_FRACTIONAL_BITS = 0"
    "double_to_fixed 2 FIXED_POINT_FRACTIONAL_BITS = 131072"
    "double_to_fixed (1 / 65536) FIXED_POINT_FRACTIONAL_BITS = 1"
    by (simp_all add: double_to_fixed_def FIXED_POINT_FRACTIONAL_BITS_def one_shl_pow c_trunc_def)
  have lx: "fixed_lanes 8 [1 / 131072] 1 = map (\<lambda>i. if i < 1 then 0 else 0) [0..<8]"
    unfolding fixed_lanes_def by (intro map_cong refl) (simp add: f)
  have lw: "fixed_lanes 8 [2] 1 = map (\<lambda>i. if i < 1 then 131072 else 0) [0..<8]"
    unfolding fixed_lanes_def by (intro map_cong refl) (simp add: f)
  have "(1 :: nat) \<le> 8" by simp
  from hw_split [OF this, of "\<lambda>i. 0" "\<lambda>i. 131072"]
  have "dot_product_result_hw (fixed_lanes 8 [1 / 131072] 1) (fixed_lanes 8 [2] 1) = 0"
    unfolding lx lw by simp
  then show ?thesis by (simp add: compute_chunk_hw compute_chunk_sw f)
qed

text \<open>
  C4. Appending \<open>n\<close> zero elements to both vectors does not change what the engines
  compute: the accumulator of \<^verbatim>\<open>logistic_process_chunks\<close> ends at the same value, for
  every unit that shows \<open>0\<close> on all-zero banks, and \<^verbatim>\<open>dot_product_accel_dot_product\<close>
  returns the same double in either build (with the same proviso on the unit when there
  is one). The zero lanes of the final short chunk add nothing: on the unit of the spec
  the accumulator gains, per chunk, the 32-bit sum of the products of the elements that
  are really there, and when no chunk overflows 32 bits that is the dot product
  \<open>\<Sum> inputs[j] * weights[j]\<close> over \<open>j < length inputs\<close>, modulo \<open>2^64\<close>.

  The value \<^verbatim>\<open>dot_product_accel_dot_product\<close> returns, for at most \<open>2^22\<close> elements (the
  64-bit total is then at most \<open>2^53\<close> in absolute value, and its conversion to
  \<^verbatim>\<open>double\<close> is exact): in the build with the unit, on operands of the Q16.16 range, it
  is the sum of the signed values the unit shows for the chunks (the last one
  zero-padded), divided by \<open>2^16\<close>; in the build without it, on operands that are Q16.16
  values \<open>a / 2^16\<close> with \<open>\<bar>a\<bar> < 2^26\<close> (their double product is exact), when the truncated
  products of no chunk add up to \<open>2^31\<close> in absolute value (no conversion and no
  addition of the source then leaves \<^verbatim>\<open>int32_t\<close>), it is the sum of the products
  \<open>inputs[j] * weights[j]\<close>, each truncated towards zero to Q16.16. That is within
  \<open>length / 2^16\<close> of the dot product of the unpadded vectors, and equal to it when every
  product is a Q16.16 value.
\<close>

theorem zero_padding_is_neutral:
  assumes "length weights = length inputs"
    and "hw (replicate LOGISTIC_INPUT_SIZE 0) (replicate LOGISTIC_INPUT_SIZE 0) = 0"
    and "length dweights = length dinputs"
    and "0 < L" and "L < 2 ^ 31"
    and "avail \<longrightarrow> hw' (replicate L 0) (replicate L 0) = 0"
  shows "fst (snd (logistic_process_chunks hw (Some (inputs @ replicate n 0))
                     (Some (weights @ replicate n 0)) (length inputs + n) (Some acc) s))
           = fst (snd (logistic_process_chunks hw (Some inputs) (Some weights) (length inputs)
                         (Some acc) s))
       \<and> fst (dot_product_accel_dot_product avail L hw' (length dinputs + n)
                (Some (dinputs @ replicate n 0)) (Some (dweights @ replicate n 0)) t)
           = fst (dot_product_accel_dot_product avail L hw' (length dinputs)
                    (Some dinputs) (Some dweights) t)
       \<and> fst (snd (logistic_process_chunks logistic_result_hw (Some inputs) (Some weights)
                     (length inputs) (Some acc) s))
           = Some (acc + (\<Sum>k\<leftarrow>[0..<(length inputs + 7) div LOGISTIC_INPUT_SIZE].
                ucast (\<Sum>j\<leftarrow>[k * LOGISTIC_INPUT_SIZE..<
                                min (k * LOGISTIC_INPUT_SIZE + LOGISTIC_INPUT_SIZE) (length inputs)].
                         inputs ! j * weights ! j)))
       \<and> ((\<forall>k<(length inputs + 7) div LOGISTIC_INPUT_SIZE.
              (\<Sum>j\<leftarrow>[k * LOGISTIC_INPUT_SIZE..<
                       min (k * LOGISTIC_INPUT_SIZE + LOGISTIC_INPUT_SIZE) (length inputs)].
                 unat (inputs ! j) * unat (weights ! j)) < 2 ^ 32) \<longrightarrow>
           fst (snd (logistic_process_chunks logistic_result_hw (Some inputs) (Some weights)
                       (length inputs) (Some acc) s))
             = Some (acc + word_of_nat (\<Sum>j\<leftarrow>[0..<length inputs].
                                          unat (inputs ! j) * unat (weights ! j))))
       \<and> (length dinputs \<le> 2 ^ 22 \<longrightarrow>
           (\<forall>j<length dinputs. \<bar>dinputs ! j * 65536\<bar> < 2 ^ 31 \<and> \<bar>dweights ! j * 65536\<bar> < 2 ^ 31) \<longrightarrow>
           fst (dot_product_accel_dot_product True L hw' (length dinputs)
                  (Some dinputs) (Some dweights) t)
             = real_of_int (\<Sum>k\<leftarrow>[0..<(length dinputs + L - 1) div L].
                   sint (hw' (q16_lanes L dinputs (length dinputs) k)
                             (q16_lanes L dweights (length dinputs) k))) / 65536)
       \<and> (length dinputs \<le> 2 ^ 22 \<longrightarrow>
           (\<forall>j<length dinputs.
              dinputs ! j * 65536 \<in> \<int> \<and> \<bar>dinputs ! j * 65536\<bar> < 2 ^ 26
              \<and> dweights ! j * 65536 \<in> \<int> \<and> \<bar>dweights ! j * 65536\<bar> < 2 ^ 26) \<longrightarrow>
           (\<forall>k<(length dinputs + L - 1) div L.
              (\<Sum>j\<leftarrow>[k * L..<min (k * L + L) (length dinputs)].
                 \<bar>c_trunc (dinputs ! j * dweights ! j * 65536)\<bar>) < 2 ^ 31) \<longrightarrow>
           fst (dot_product_accel_dot_product False L hw' (length dinputs)
                  (Some dinputs) (Some dweights) t)
             = real_of_int (\<Sum>j\<leftarrow>[0..<length dinputs].
                              c_trunc (dinputs ! j * dweights ! j * 65536)) / 65536
           \<and> \<bar>fst (dot_product_accel_dot_product False L hw' (length dinputs)
                    (Some dinputs) (Some dweights) t)
                - (\<Sum>j\<leftarrow>[0..<length dinputs]. dinputs ! j * dweights ! j)\<bar>
               \<le> real (length dinputs) / 65536
           \<and> ((\<forall>j<length dinputs. dinputs ! j * dweights ! j * 65536 \<in> \<int>) \<longrightarrow>
                fst (dot_product_accel_dot_product False L hw' (length dinputs)
                       (Some dinputs) (Some dweights) t)
                  = (\<Sum>j\<leftarrow>[0..<length dinputs]. dinputs ! j * dweights ! j)))"
proof -
  have a: "fst (snd (logistic_process_chunks hw (Some (inputs @ replicate n 0))
                     (Some (weights @ replicate n 0)) (length inputs + n) (Some acc) s))
           = fst (snd (logistic_process_chunks hw (Some inputs) (Some weights) (length inputs)
                         (Some acc) s))"
    using assms(1)
    by (simp add: process_chunks_acc
        chunk_total_pad [where hw = hw and xs = inputs and ws = weights, OF assms(2,1)])
  have b: "fst (dot_product_accel_dot_product avail L hw' (length dinputs + n)
                (Some (dinputs @ replicate n 0)) (Some (dweights @ replicate n 0)) t)
           = fst (dot_product_accel_dot_product avail L hw' (length dinputs)
                    (Some dinputs) (Some dweights) t)"
    using assms(3)
    by (simp add: dp_value [OF assms(4,5)]
        dot_product_total_pad [where hw = hw' and xs = dinputs and ws = dweights, OF assms(4,6,3)])
  have c: "fst (snd (logistic_process_chunks logistic_result_hw (Some inputs) (Some weights)
                     (length inputs) (Some acc) s))
           = Some (acc + chunk_total logistic_result_hw inputs weights (length inputs))"
    using assms(1) by (simp add: process_chunks_acc)
  have d: "chunk_total logistic_result_hw inputs weights (length inputs)
             = word_of_nat (\<Sum>j\<leftarrow>[0..<length inputs]. unat (inputs ! j) * unat (weights ! j))"
    if "\<forall>k<(length inputs + 7) div LOGISTIC_INPUT_SIZE.
              (\<Sum>j\<leftarrow>[k * LOGISTIC_INPUT_SIZE..<
                       min (k * LOGISTIC_INPUT_SIZE + LOGISTIC_INPUT_SIZE) (length inputs)].
                 unat (inputs ! j) * unat (weights ! j)) < 2 ^ 32"
    using that by (intro chunk_total_exact) simp
  have c': "fst (snd (logistic_process_chunks logistic_result_hw (Some inputs) (Some weights)
                     (length inputs) (Some acc) s))
           = Some (acc + (\<Sum>k\<leftarrow>[0..<(length inputs + 7) div LOGISTIC_INPUT_SIZE].
                ucast (\<Sum>j\<leftarrow>[k * LOGISTIC_INPUT_SIZE..<
                                min (k * LOGISTIC_INPUT_SIZE + LOGISTIC_INPUT_SIZE) (length inputs)].
                         inputs ! j * weights ! j)))"
    using c by (simp only: chunk_total_unpadded)
  have d': "(\<forall>k<(length inputs + 7) div LOGISTIC_INPUT_SIZE.
              (\<Sum>j\<leftarrow>[k * LOGISTIC_INPUT_SIZE..<
                       min (k * LOGISTIC_INPUT_SIZE + LOGISTIC_INPUT_SIZE) (length inputs)].
                 unat (inputs ! j) * unat (weights ! j)) < 2 ^ 32) \<longrightarrow>
           fst (snd (logistic_process_chunks logistic_result_hw (Some inputs) (Some weights)
                       (length inputs) (Some acc) s))
             = Some (acc + word_of_nat (\<Sum>j\<leftarrow>[0..<length inputs].
                                          unat (inputs ! j) * unat (weights ! j)))"
  proof
    assume "\<forall>k<(length inputs + 7) div LOGISTIC_INPUT_SIZE.
              (\<Sum>j\<leftarrow>[k * LOGISTIC_INPUT_SIZE..<
                       min (k * LOGISTIC_INPUT_SIZE + LOGISTIC_INPUT_SIZE) (length inputs)].
                 unat (inputs ! j) * unat (weights ! j)) < 2 ^ 32"
    from d [OF this] c show "fst (snd (logistic_process_chunks logistic_result_hw (Some inputs)
                       (Some weights) (length inputs) (Some acc) s))
             = Some (acc + word_of_nat (\<Sum>j\<leftarrow>[0..<length inputs].
                                          unat (inputs ! j) * unat (weights ! j)))"
      by (simp only:)
  qed
  have lw: "length dinputs \<le> length dweights" using assms(3) by simp
  have small: "length dinputs < 2 ^ 32" if "length dinputs \<le> 2 ^ 22"
    using that by simp
  have e: "length dinputs \<le> 2 ^ 22 \<longrightarrow>
           (\<forall>j<length dinputs. \<bar>dinputs ! j * 65536\<bar> < 2 ^ 31 \<and> \<bar>dweights ! j * 65536\<bar> < 2 ^ 31) \<longrightarrow>
           fst (dot_product_accel_dot_product True L hw' (length dinputs)
                  (Some dinputs) (Some dweights) t)
             = real_of_int (\<Sum>k\<leftarrow>[0..<(length dinputs + L - 1) div L].
                   sint (hw' (q16_lanes L dinputs (length dinputs) k)
                             (q16_lanes L dweights (length dinputs) k))) / 65536"
    using dp_value_hw_int [OF assms(4,5) order_refl lw] small by blast
  let ?r = "fst (dot_product_accel_dot_product False L hw' (length dinputs)
                  (Some dinputs) (Some dweights) t)"
  let ?f = "\<lambda>j. dinputs ! j * dweights ! j * 65536"
  let ?dot = "\<Sum>j\<leftarrow>[0..<length dinputs]. dinputs ! j * dweights ! j"
  have f: "?r = real_of_int (\<Sum>j\<leftarrow>[0..<length dinputs]. c_trunc (?f j)) / 65536
      \<and> \<bar>?r - ?dot\<bar> \<le> real (length dinputs) / 65536
      \<and> ((\<forall>j<length dinputs. ?f j \<in> \<int>) \<longrightarrow> ?r = ?dot)"
    if le: "length dinputs \<le> 2 ^ 22"
      and range: "\<forall>k<(length dinputs + L - 1) div L.
              (\<Sum>j\<leftarrow>[k * L..<min (k * L + L) (length dinputs)]. \<bar>c_trunc (?f j)\<bar>) < 2 ^ 31"
  proof -
    have v: "?r = real_of_int (\<Sum>j\<leftarrow>[0..<length dinputs]. c_trunc (?f j)) / 65536"
      using range by (intro dp_value_sw [OF assms(4,5) order_refl lw small [OF le]]) simp
    have sc: "(\<Sum>j\<leftarrow>[0..<length dinputs]. ?f j) = ?dot * 65536"
      by (rule sum_list_scale)
    have "\<bar>real_of_int (\<Sum>j\<leftarrow>[0..<length dinputs]. c_trunc (?f j)) - ?dot * 65536\<bar>
        \<le> real (length dinputs)"
      using trunc_sum_close [of ?f "[0..<length dinputs]"] by (simp only: sc length_upt diff_zero)
    then have cl: "\<bar>?r - ?dot\<bar> \<le> real (length dinputs) / 65536"
      unfolding v by (simp add: field_simps)
    have ex: "?r = ?dot" if "\<forall>j<length dinputs. ?f j \<in> \<int>"
    proof -
      have "real_of_int (\<Sum>j\<leftarrow>[0..<length dinputs]. c_trunc (?f j))
          = (\<Sum>j\<leftarrow>[0..<length dinputs]. ?f j)"
        using that by (intro trunc_sum_exact) simp
      then show ?thesis unfolding v by (simp only: sc)
    qed
    from v cl ex show ?thesis by blast
  qed
  from f have f': "length dinputs \<le> 2 ^ 22 \<longrightarrow>
           (\<forall>j<length dinputs.
              dinputs ! j * 65536 \<in> \<int> \<and> \<bar>dinputs ! j * 65536\<bar> < 2 ^ 26
              \<and> dweights ! j * 65536 \<in> \<int> \<and> \<bar>dweights ! j * 65536\<bar> < 2 ^ 26) \<longrightarrow>
           (\<forall>k<(length dinputs + L - 1) div L.
              (\<Sum>j\<leftarrow>[k * L..<min (k * L + L) (length dinputs)]. \<bar>c_trunc (?f j)\<bar>) < 2 ^ 31) \<longrightarrow>
           ?r = real_of_int (\<Sum>j\<leftarrow>[0..<length dinputs]. c_trunc (?f j)) / 65536
           \<and> \<bar>?r - ?dot\<bar> \<le> real (length dinputs) / 65536
           \<and> ((\<forall>j<length dinputs. ?f j \<in> \<int>) \<longrightarrow> ?r = ?dot)"
    by blast
  show ?thesis by (intro conjI a b c' d' e f')
qed

theorem zero_padding_is_neutral_witness:
  "fst (snd (logistic_process_chunks logistic_result_hw (Some ([1, 2, 3] @ replicate 7 0))
               (Some ([4, 5, 6] @ replicate 7 0)) (3 + 7) (Some 0)
               \<lparr>logistic_input = [], logistic_weight = [], result_reads = 0\<rparr>)) = Some 32
   \<and> fst (snd (logistic_process_chunks logistic_result_hw (Some [1, 2, 3]) (Some [4, 5, 6]) 3
               (Some 0) \<lparr>logistic_input = [], logistic_weight = [], result_reads = 0\<rparr>)) = Some 32
   \<and> fst (dot_product_accel_dot_product True 2 dot_product_result_hw (3 + 7)
            (Some ([1 / 2, 3, 1] @ replicate 7 0)) (Some ([2, 1 / 4, 1] @ replicate 7 0))
            \<lparr>dot_product_input = [], dot_product_weight = [], dot_product_result_reads = 0\<rparr>)
      = 11 / 4
   \<and> fst (dot_product_accel_dot_product True 2 dot_product_result_hw 3
            (Some [1 / 2, 3, 1]) (Some [2, 1 / 4, 1])
            \<lparr>dot_product_input = [], dot_product_weight = [], dot_product_result_reads = 0\<rparr>)
      = 11 / 4
   \<and> fst (dot_product_accel_dot_product False 2 dot_product_result_hw (3 + 7)
            (Some ([1 / 2, 3, 1] @ replicate 7 0)) (Some ([2, 1 / 4, 1] @ replicate 7 0))
            \<lparr>dot_product_input = [], dot_product_weight = [], dot_product_result_reads = 0\<rparr>)
      = 11 / 4
   \<and> fst (dot_product_accel_dot_product False 2 dot_product_result_hw 3
            (Some [1 / 2, 3, 1]) (Some [2, 1 / 4, 1])
            \<lparr>dot_product_input = [], dot_product_weight = [], dot_product_result_reads = 0\<rparr>)
      = 11 / 4"
proof -
  let ?s = "\<lparr>logistic_input = [], logistic_weight = [], result_reads = 0\<rparr>"
  let ?t = "\<lparr>dot_product_input = [], dot_product_weight = [], dot_product_result_reads = 0\<rparr>"
  have h: "length [4, 5, 6 :: u32] = length [1, 2, 3 :: u32]"
    "logistic_result_hw (replicate LOGISTIC_INPUT_SIZE 0) (replicate LOGISTIC_INPUT_SIZE 0) = 0"
    "length [2, 1 / 4, 1 :: real] = length [1 / 2, 3, 1 :: real]"
    "0 < (2 :: nat)" "(2 :: nat) < 2 ^ 31"
    by (simp_all add: logistic_hw_zero)
  have hT: "True \<longrightarrow> dot_product_result_hw (replicate 2 0) (replicate 2 0) = 0"
    by (simp add: dot_product_hw_zero)
  have hF: "False \<longrightarrow> dot_product_result_hw (replicate 2 0) (replicate 2 0) = 0"
    by simp
  have l: "length [1, 2, 3 :: u32] = 3" "length [1 / 2, 3, 1 :: real] = 3" by simp_all
  note T = zero_padding_is_neutral [where hw = logistic_result_hw and hw' = dot_product_result_hw
      and avail = True and L = 2 and inputs = "[1, 2, 3]" and weights = "[4, 5, 6]"
      and dinputs = "[1 / 2, 3, 1]" and dweights = "[2, 1 / 4, 1]" and n = 7 and acc = 0
      and s = ?s and t = ?t, OF h hT, unfolded l]
  note F = zero_padding_is_neutral [where hw = logistic_result_hw and hw' = dot_product_result_hw
      and avail = False and L = 2 and inputs = "[1, 2, 3]" and weights = "[4, 5, 6]"
      and dinputs = "[1 / 2, 3, 1]" and dweights = "[2, 1 / 4, 1]" and n = 7 and acc = 0
      and s = ?s and t = ?t, OF h hF, unfolded l]
  have e: "(\<Sum>k\<leftarrow>[0..<(3 + 7) div LOGISTIC_INPUT_SIZE].
                ucast (\<Sum>j\<leftarrow>[k * LOGISTIC_INPUT_SIZE..<
                                min (k * LOGISTIC_INPUT_SIZE + LOGISTIC_INPUT_SIZE) 3].
                         [1, 2, 3 :: u32] ! j * [4, 5, 6] ! j) :: u64) = 32"
    by code_simp
  have z: "(0 :: u64) + 32 = 32" by simp
  have lg: "fst (snd (logistic_process_chunks logistic_result_hw (Some [1, 2, 3]) (Some [4, 5, 6]) 3
               (Some 0) ?s)) = Some 32"
    using T unfolding e z by (elim conjE)
  have lgp: "fst (snd (logistic_process_chunks logistic_result_hw (Some ([1, 2, 3] @ replicate 7 0))
               (Some ([4, 5, 6] @ replicate 7 0)) (3 + 7) (Some 0) ?s)) = Some 32"
    using T lg by (elim conjE) (simp only:)
  have sm: "(3 :: nat) \<le> 2 ^ 22" by simp
  have c2: "(3 + 2 - 1) div 2 = (2 :: nat)" by simp
  have u2: "[0..<2] = [0, 1 :: nat]" by (simp add: upt_rec)
  have u3: "[0..<3] = [0, 1, 2 :: nat]" by (simp add: upt_rec)
  have q: "q16_lanes 2 [1 / 2, 3, 1] 3 0 = [32768, 196608]"
    "q16_lanes 2 [1 / 2, 3, 1] 3 (Suc 0) = [65536, 0]"
    "q16_lanes 2 [2, 1 / 4, 1] 3 0 = [131072, 16384]"
    "q16_lanes 2 [2, 1 / 4, 1] 3 (Suc 0) = [65536, 0]"
    by (simp_all add: q16_lanes_def double_to_fixed_16 c_trunc_def numeral_2_eq_2)
  have u: "dot_product_result_hw [32768, 196608] [131072, 16384] = 114688"
    "dot_product_result_hw [65536, 0] [65536, 0] = 65536"
    by (simp_all add: dot_product_result_hw_def c_trunc_def)
  have hwv: "(\<Sum>k\<leftarrow>[0..<(3 + 2 - 1) div 2].
       sint (dot_product_result_hw (q16_lanes 2 [1 / 2, 3, 1] 3 k) (q16_lanes 2 [2, 1 / 4, 1] 3 k)))
     = 180224"
    unfolding c2 u2 by (simp add: q u)
  have ops: "\<forall>j<3. \<bar>[1 / 2, 3, 1 :: real] ! j * 65536\<bar> < 2 ^ 31
      \<and> \<bar>[2, 1 / 4, 1 :: real] ! j * 65536\<bar> < 2 ^ 31"
    by (auto simp: less_Suc_eq numeral_3_eq_3)
  have q16: "\<forall>j<3. [1 / 2, 3, 1 :: real] ! j * 65536 \<in> \<int>
      \<and> \<bar>[1 / 2, 3, 1 :: real] ! j * 65536\<bar> < 2 ^ 26
      \<and> [2, 1 / 4, 1 :: real] ! j * 65536 \<in> \<int>
      \<and> \<bar>[2, 1 / 4, 1 :: real] ! j * 65536\<bar> < 2 ^ 26"
    by (auto simp: less_Suc_eq numeral_3_eq_3)
  have dT: "fst (dot_product_accel_dot_product True 2 dot_product_result_hw 3
            (Some [1 / 2, 3, 1]) (Some [2, 1 / 4, 1]) ?t) = 11 / 4"
  proof -
    from T sm ops have "fst (dot_product_accel_dot_product True 2 dot_product_result_hw 3
            (Some [1 / 2, 3, 1]) (Some [2, 1 / 4, 1]) ?t) = real_of_int 180224 / 65536"
      unfolding hwv by blast
    then show ?thesis by simp
  qed
  have dTp: "fst (dot_product_accel_dot_product True 2 dot_product_result_hw (3 + 7)
            (Some ([1 / 2, 3, 1] @ replicate 7 0)) (Some ([2, 1 / 4, 1] @ replicate 7 0)) ?t) = 11 / 4"
    using T dT by (elim conjE) (simp only:)
  have r: "\<forall>k<(3 + 2 - 1) div 2.
      (\<Sum>j\<leftarrow>[k * 2..<min (k * 2 + 2) 3]. \<bar>c_trunc ([1 / 2, 3, 1] ! j * [2, 1 / 4, 1] ! j * 65536)\<bar>) < 2 ^ 31"
  proof (intro allI impI)
    fix k :: nat assume "k < (3 + 2 - 1) div 2"
    then have "k = 0 \<or> k = 1" by auto
    then show "(\<Sum>j\<leftarrow>[k * 2..<min (k * 2 + 2) 3].
        \<bar>c_trunc ([1 / 2, 3, 1] ! j * [2, 1 / 4, 1] ! j * 65536)\<bar>) < 2 ^ 31"
      by (auto simp: c_trunc_def upt_rec [of 2])
  qed
  have sv: "(\<Sum>j\<leftarrow>[0..<3]. c_trunc ([1 / 2, 3, 1] ! j * [2, 1 / 4, 1] ! j * 65536)) = 180224"
    unfolding u3 by (simp add: c_trunc_def)
  have dF: "fst (dot_product_accel_dot_product False 2 dot_product_result_hw 3
            (Some [1 / 2, 3, 1]) (Some [2, 1 / 4, 1]) ?t) = 11 / 4"
  proof -
    from F sm q16 r have "fst (dot_product_accel_dot_product False 2 dot_product_result_hw 3
            (Some [1 / 2, 3, 1]) (Some [2, 1 / 4, 1]) ?t) = real_of_int 180224 / 65536"
      unfolding sv by blast
    then show ?thesis by simp
  qed
  have dFp: "fst (dot_product_accel_dot_product False 2 dot_product_result_hw (3 + 7)
            (Some ([1 / 2, 3, 1] @ replicate 7 0)) (Some ([2, 1 / 4, 1] @ replicate 7 0)) ?t) = 11 / 4"
    using F dF by (elim conjE) (simp only:)
  from lgp lg dTp dT dFp dF show ?thesis by (intro conjI)
qed

end
